theory Spec2Isabelle
  imports Main
begin

section \<open>gofilededup: the data of \<^verbatim>\<open>cmd/root.go\<close>\<close>

text \<open>
  \<^verbatim>\<open>type PathTime struct { Path string; Time time.Time }\<close>.
  A Go string is a sequence of bytes and \<^verbatim>\<open>len\<close> counts bytes, so \<open>Path\<close> is a
  \<open>string\<close> (a list of 8-bit characters) and \<^verbatim>\<open>len(p)\<close> is \<open>length p\<close>.
  A \<^verbatim>\<open>time.Time\<close> read from \<^verbatim>\<open>info.ModTime()\<close> is an instant; it is modelled
  by its number of nanoseconds, an \<open>int\<close>, and \<^verbatim>\<open>a.After(b)\<close> is \<open>b < a\<close>.
\<close>

record PathTime =
  Path :: string
  Time :: int

text \<open>The package-level flag variables, set by cobra before \<^verbatim>\<open>RunE\<close> runs.\<close>

record config =
  ddir :: string
  dedup :: bool
  rdup :: bool
  remove :: bool
  fdir :: string
  flatten :: bool
  dryrun :: bool

text \<open>
  Error values. \<open>Errorf\<close> is an error built by \<^verbatim>\<open>fmt.Errorf\<close> in \<^verbatim>\<open>RunE\<close>;
  \<open>OsError\<close> is any error handed back by the operating system or the standard library.
\<close>

datatype err = Errorf string | OsError string

text \<open>
  The calls of the program that act on the file system after the walk, in the order the
  standard library is called: \<^verbatim>\<open>os.MkdirAll\<close>, \<^verbatim>\<open>os.Open\<close>, \<^verbatim>\<open>os.Create\<close>,
  \<^verbatim>\<open>io.Copy(out, in)\<close> (destination first), \<^verbatim>\<open>out.Sync\<close>, \<^verbatim>\<open>Close\<close>,
  \<^verbatim>\<open>os.Rename\<close> and \<^verbatim>\<open>os.Remove\<close>.
\<close>

datatype fsop =
    MkdirAll string
  | Open string
  | Create string
  | Copy string string
  | Sync string
  | Close string
  | Rename string string
  | Remove string

text \<open>The lines written through logrus, kept structured (the texts are not modelled).\<close>

datatype notice =
    LogError err
  | LogFatal err
  | FoundSkipping string
  | Found string string
  | InfoMoveTo string
  | InfoCopyTo string
  | InfoRemoveFrom string
  | Removing string
  | InfoFlatten string
  | Copying string string
  | Moving string string

text \<open>
  The state of a run: the two package-level maps \<^verbatim>\<open>files\<close> (fingerprint to the
  canonical record) and \<^verbatim>\<open>dupFiles\<close> (a \<^verbatim>\<open>map[PathTime]bool\<close> used as a set),
  the file system \<open>fs\<close> (of any type: the operating system is a parameter of the
  model), the file-system calls made so far, the files the walk opened for hashing, and
  the log.
\<close>

record 'fs state =
  files :: "string \<rightharpoonup> PathTime"
  dupFiles :: "PathTime \<rightharpoonup> bool"
  fs :: 'fs
  calls :: "fsop list"
  hashed :: "string list"
  logs :: "notice list"

definition init :: "'fs \<Rightarrow> 'fs state" where
  "init f = \<lparr>files = Map.empty, dupFiles = Map.empty, fs = f, calls = [], hashed = [], logs = []\<rparr>"

definition logf :: "notice \<Rightarrow> 'fs state \<Rightarrow> 'fs state" where
  "logf n s = s\<lparr>logs := logs s @ [n]\<rparr>"

text \<open>
  What \<^verbatim>\<open>filepath.Walk\<close> hands to the callback for one entry of the tree, and what the
  reads of the callback find there: the walk's own error \<^verbatim>\<open>e\<close>, \<^verbatim>\<open>info.Mode().IsDir()\<close>,
  \<^verbatim>\<open>info.Size()\<close>, \<^verbatim>\<open>info.ModTime()\<close>, the error of \<^verbatim>\<open>os.Open(path)\<close>, the error
  of \<^verbatim>\<open>io.Copy(h, f)\<close>, and the hexadecimal SHA-256 digest of the content.
\<close>

record entry =
  path :: string
  walkErr :: "err option"
  IsDir :: bool
  Size :: int
  ModTime :: int
  openErr :: "err option"
  copyErr :: "err option"
  sha :: string

section \<open>The content index (lines 90 to 105 of the walk callback)\<close>

text \<open>
  \<^verbatim>\<open>
  old, has := files[sha]
  fileInfo := PathTime{path, info.ModTime()}
  if !has { files[sha] = fileInfo; return nil }
  if old.Time.After(info.ModTime()) || len(old.Path) > len(path) {
      delete(dupFiles, files[sha])
      files[sha] = fileInfo
  }
  dupFiles[fileInfo] = true
  \<close>
  \<open>replaces old new\<close> is the condition of the \<^verbatim>\<open>if\<close>. In \<open>observe\<close> the
  \<^verbatim>\<open>delete\<close> runs before the assignment, so \<^verbatim>\<open>files[sha]\<close> is still \<open>old\<close> there.
\<close>

definition replaces :: "PathTime \<Rightarrow> PathTime \<Rightarrow> bool" where
  "replaces old new \<longleftrightarrow> Time new < Time old \<or> length (Path new) < length (Path old)"

definition observe :: "string \<Rightarrow> PathTime \<Rightarrow> 'fs state \<Rightarrow> 'fs state" where
  "observe h fileInfo s =
     (case files s h of
        None \<Rightarrow> s\<lparr>files := (files s)(h \<mapsto> fileInfo)\<rparr>
      | Some old \<Rightarrow>
          (let s1 = (if replaces old fileInfo
                     then s\<lparr>dupFiles := (dupFiles s)(old := None),
                            files := (files s)(h \<mapsto> fileInfo)\<rparr>
                     else s)
           in s1\<lparr>dupFiles := (dupFiles s1)(fileInfo \<mapsto> True)\<rparr>))"

text \<open>Feeding a sequence of (fingerprint, record) observations through the index.\<close>

fun observeAll :: "(string \<times> PathTime) list \<Rightarrow> 'fs state \<Rightarrow> 'fs state" where
  "observeAll [] s = s"
| "observeAll ((h, r) # xs) s = observeAll xs (observe h r s)"

section \<open>The walk\<close>

text \<open>
  The result of one callback: \<^verbatim>\<open>nil\<close>, an error (which stops \<^verbatim>\<open>filepath.Walk\<close>),
  or no return at all: \<^verbatim>\<open>logrus.Fatal\<close> logs and calls \<^verbatim>\<open>os.Exit(1)\<close>.
\<close>

datatype ret = RetNil | RetErr err | FatalExit

definition walkFn :: "entry \<Rightarrow> 'fs state \<Rightarrow> ret \<times> 'fs state" where
  "walkFn en s =
     (case walkErr en of
        Some e \<Rightarrow> (RetErr e, logf (LogError e) s)
      | None \<Rightarrow>
          if IsDir en then (RetNil, s)
          else if Size en = 0 then (RetNil, logf (FoundSkipping (path en)) s)
          else
            (let s1 = s\<lparr>hashed := hashed s @ [path en]\<rparr> in
             case openErr en of
               Some e \<Rightarrow> (RetErr e, logf (LogError e) s1)
             | None \<Rightarrow>
                 (case copyErr en of
                    Some e \<Rightarrow> (FatalExit, logf (LogFatal e) s1)
                  | None \<Rightarrow>
                      (RetNil,
                       observe (sha en) \<lparr>Path = path en, Time = ModTime en\<rparr>
                         (logf (Found (path en) (sha en)) s1)))))"

text \<open>
  \<^verbatim>\<open>filepath.Walk\<close> calls the callback on the entries of the tree in lexical order and
  stops at the first result that is not \<^verbatim>\<open>nil\<close>. The list is the sequence of entries
  it would present.
\<close>

fun Walk :: "entry list \<Rightarrow> 'fs state \<Rightarrow> ret \<times> 'fs state" where
  "Walk [] s = (RetNil, s)"
| "Walk (en # ens) s =
     (case walkFn en s of
        (RetNil, s1) \<Rightarrow> Walk ens s1
      | (r, s1) \<Rightarrow> (r, s1))"

section \<open>Paths: \<^verbatim>\<open>path/filepath\<close> on Unix\<close>

text \<open>
  \<^verbatim>\<open>filepath.Clean\<close>, \<^verbatim>\<open>Dir\<close>, \<^verbatim>\<open>Base\<close> and \<^verbatim>\<open>Join\<close> of the Go standard library,
  with separator \<^verbatim>\<open>/\<close> and no volume names. \<open>Clean\<close> drops empty and \<^verbatim>\<open>.\<close> elements,
  cancels an inner \<^verbatim>\<open>..\<close> against the element before it, drops \<^verbatim>\<open>..\<close> at the start
  of a rooted path, and returns \<^verbatim>\<open>.\<close> for an empty result.
\<close>

fun split_sep :: "string \<Rightarrow> string list" where
  "split_sep [] = [[]]"
| "split_sep (c # cs) =
     (if c = CHR ''/'' then [] # split_sep cs
      else (case split_sep cs of [] \<Rightarrow> [[c]] | w # ws \<Rightarrow> (c # w) # ws))"

fun join_sep :: "string list \<Rightarrow> string" where
  "join_sep [] = []"
| "join_sep [w] = w"
| "join_sep (w # ws) = w @ CHR ''/'' # join_sep ws"

definition clean_step :: "bool \<Rightarrow> string list \<Rightarrow> string \<Rightarrow> string list" where
  "clean_step rooted st c =
     (if c = [] \<or> c = ''.'' then st
      else if c = ''..'' then
        (case st of
           [] \<Rightarrow> if rooted then [] else [c]
         | t # ts \<Rightarrow> if t = ''..'' then c # st else ts)
      else c # st)"

definition Clean :: "string \<Rightarrow> string" where
  "Clean p =
     (let rooted = (take 1 p = ''/'');
          body = join_sep (rev (foldl (clean_step rooted) [] (split_sep p)));
          out = (if rooted then CHR ''/'' # body else body)
      in if out = [] then ''.'' else out)"

definition Dir :: "string \<Rightarrow> string" where
  "Dir p = Clean (rev (dropWhile (\<lambda>c. c \<noteq> CHR ''/'') (rev p)))"

definition Base :: "string \<Rightarrow> string" where
  "Base p =
     (if p = [] then ''.''
      else
        (let q = rev (dropWhile (\<lambda>c. c = CHR ''/'') (rev p));
             b = rev (takeWhile (\<lambda>c. c \<noteq> CHR ''/'') (rev q))
         in if b = [] then ''/'' else b))"

definition Join :: "string list \<Rightarrow> string" where
  "Join elem =
     (case dropWhile (\<lambda>e. e = []) elem of
        [] \<Rightarrow> []
      | es \<Rightarrow> Clean (join_sep es))"

text \<open>
  \<^verbatim>\<open>fmt.Sprint(name, x)\<close> with a string and an \<^verbatim>\<open>int\<close>: no space is put between the
  operands (one of them is a string), and the integer is printed in decimal.
\<close>

fun digits :: "nat \<Rightarrow> string" where
  "digits n =
     (if n < 10 then [''0123456789'' ! n]
      else digits (n div 10) @ [''0123456789'' ! (n mod 10)])"

definition Itoa :: "int \<Rightarrow> string" where
  "Itoa x = (if x < 0 then CHR ''-'' # digits (nat (- x)) else digits (nat x))"

definition Sprint :: "string \<Rightarrow> int \<Rightarrow> string" where
  "Sprint name x = name @ Itoa x"

section \<open>The action executor\<close>

text \<open>
  The operating system is a parameter \<open>sys\<close>: a call on a file system answers with an
  error or \<^verbatim>\<open>nil\<close> and leaves a file system. \<open>exec\<close> makes one call and records it.
\<close>

type_synonym 'fs sys = "fsop \<Rightarrow> 'fs \<Rightarrow> err option \<times> 'fs"

definition exec :: "'fs sys \<Rightarrow> fsop \<Rightarrow> 'fs state \<Rightarrow> err option \<times> 'fs state" where
  "exec sys op s =
     (case sys op (fs s) of (r, f) \<Rightarrow> (r, s\<lparr>fs := f, calls := calls s @ [op]\<rparr>))"

text \<open>
  The deferred \<^verbatim>\<open>out.Close()\<close> and \<^verbatim>\<open>in.Close()\<close> of \<^verbatim>\<open>copyToDirectory\<close>, run in
  that order on return; neither result reaches the caller (the function's result is not
  named, so the deferred assignment to \<^verbatim>\<open>err\<close> is lost).
\<close>

definition closeIn :: "'fs sys \<Rightarrow> string \<Rightarrow> 'fs state \<Rightarrow> 'fs state" where
  "closeIn sys filename s = snd (exec sys (Close filename) s)"

definition closeOutIn :: "'fs sys \<Rightarrow> string \<Rightarrow> string \<Rightarrow> 'fs state \<Rightarrow> 'fs state" where
  "closeOutIn sys full filename s = closeIn sys filename (snd (exec sys (Close full) s))"

definition target :: "string \<Rightarrow> string \<Rightarrow> string \<Rightarrow> string" where
  "target filename destinationDir newFilename =
     (if newFilename \<noteq> [] then Join [destinationDir, newFilename]
      else Join [destinationDir, filename])"

definition copyToDirectory ::
  "'fs sys \<Rightarrow> config \<Rightarrow> string \<Rightarrow> string \<Rightarrow> string \<Rightarrow> 'fs state \<Rightarrow> err option \<times> 'fs state" where
  "copyToDirectory sys cfg filename destinationDir newFilename s =
     (let full = target filename destinationDir newFilename;
          s1 = logf (Copying filename full) s
      in if dryrun cfg then (None, s1)
         else
           (case exec sys (MkdirAll (Dir full)) s1 of
              (Some e, s2) \<Rightarrow> (Some e, logf (LogError e) s2)
            | (None, s2) \<Rightarrow>
                (case exec sys (Open filename) s2 of
                   (Some e, s3) \<Rightarrow> (Some e, s3)
                 | (None, s3) \<Rightarrow>
                     (case exec sys (Create full) s3 of
                        (Some e, s4) \<Rightarrow> (Some e, closeIn sys filename s4)
                      | (None, s4) \<Rightarrow>
                          (case exec sys (Copy full filename) s4 of
                             (Some e, s5) \<Rightarrow> (Some e, closeOutIn sys full filename s5)
                           | (None, s5) \<Rightarrow>
                               (case exec sys (Sync full) s5 of
                                  (r, s6) \<Rightarrow> (r, closeOutIn sys full filename s6)))))))"

definition moveToDirectory ::
  "'fs sys \<Rightarrow> config \<Rightarrow> string \<Rightarrow> string \<Rightarrow> string \<Rightarrow> 'fs state \<Rightarrow> err option \<times> 'fs state" where
  "moveToDirectory sys cfg filename destinationDir newFilename s =
     (let full = target filename destinationDir newFilename;
          s1 = logf (Moving filename full) s
      in if dryrun cfg then (None, s1)
         else
           (case exec sys (MkdirAll (Dir full)) s1 of
              (Some e, s2) \<Rightarrow> (Some e, logf (LogError e) s2)
            | (None, s2) \<Rightarrow>
                (case exec sys (Rename filename full) s2 of
                   (Some e, s3) \<Rightarrow> (Some e, logf (LogError e) s3)
                 | (None, s3) \<Rightarrow> (None, s3))))"

text \<open>
  The loops of \<^verbatim>\<open>RunE\<close> over \<^verbatim>\<open>dupFiles\<close>. A \<^verbatim>\<open>range\<close> over a Go map visits every
  key once in an unspecified order; the order is the list. The two loops of the
  \<^verbatim>\<open>dedup\<close> branch drop the result of \<^verbatim>\<open>moveToDirectory\<close> and \<^verbatim>\<open>copyToDirectory\<close>
  (lines 116 and 121); the loop of the \<^verbatim>\<open>rdup\<close> branch returns the error of
  \<^verbatim>\<open>os.Remove\<close> (line 132).
\<close>

fun dedupMove :: "'fs sys \<Rightarrow> config \<Rightarrow> PathTime list \<Rightarrow> 'fs state \<Rightarrow> 'fs state" where
  "dedupMove sys cfg [] s = s"
| "dedupMove sys cfg (file # rest) s =
     dedupMove sys cfg rest (snd (moveToDirectory sys cfg (Path file) (ddir cfg) (Path file) s))"

fun dedupCopy :: "'fs sys \<Rightarrow> config \<Rightarrow> PathTime list \<Rightarrow> 'fs state \<Rightarrow> 'fs state" where
  "dedupCopy sys cfg [] s = s"
| "dedupCopy sys cfg (file # rest) s =
     dedupCopy sys cfg rest (snd (copyToDirectory sys cfg (Path file) (ddir cfg) (Path file) s))"

definition removeTarget :: "string \<Rightarrow> PathTime \<Rightarrow> string" where
  "removeTarget arg0 file = Join [Dir (Clean arg0), Path file]"

fun rdupRemove ::
  "'fs sys \<Rightarrow> config \<Rightarrow> string \<Rightarrow> PathTime list \<Rightarrow> 'fs state \<Rightarrow> err option \<times> 'fs state" where
  "rdupRemove sys cfg arg0 [] s = (None, s)"
| "rdupRemove sys cfg arg0 (file # rest) s =
     (let filename = removeTarget arg0 file;
          s1 = logf (Removing filename) s
      in if dryrun cfg then rdupRemove sys cfg arg0 rest s1
         else
           (case exec sys (Remove filename) s1 of
              (Some e, s2) \<Rightarrow> (Some e, s2)
            | (None, s2) \<Rightarrow> rdupRemove sys cfg arg0 rest s2))"

section \<open>The flatten namer (lines 138 to 158)\<close>

text \<open>
  \<^verbatim>\<open>
  flattenFilename := filepath.Base(file.Path)
  if x, has := filenames[flattenFilename]; has {
      flattenFilename = fmt.Sprint(flattenFilename, x)
      filenames[flattenFilename]++
  } else {
      filenames[flattenFilename] = 1
  }
  \<close>
  The increment is on the entry of the new, suffixed name (a missing entry reads 0).
  The counters are Go \<^verbatim>\<open>int\<close>s; they count files, so they stay far from \<open>2 ^ 63\<close> and
  are modelled by \<open>int\<close>.
\<close>

definition flattenName :: "(string \<rightharpoonup> int) \<Rightarrow> string \<Rightarrow> string \<times> (string \<rightharpoonup> int)" where
  "flattenName filenames b =
     (case filenames b of
        Some x \<Rightarrow>
          (let n = Sprint b x
           in (n, filenames(n \<mapsto> (case filenames n of None \<Rightarrow> 0 | Some v \<Rightarrow> v) + 1)))
      | None \<Rightarrow> (b, filenames(b \<mapsto> 1)))"

text \<open>The names the loop assigns to the records it visits, in the order of the visit.\<close>

fun flattenNames :: "(string \<rightharpoonup> int) \<Rightarrow> PathTime list \<Rightarrow> string list" where
  "flattenNames filenames [] = []"
| "flattenNames filenames (file # rest) =
     (case flattenName filenames (Base (Path file)) of
        (n, filenames1) \<Rightarrow> n # flattenNames filenames1 rest)"

fun flattenLoop ::
  "'fs sys \<Rightarrow> config \<Rightarrow> (string \<rightharpoonup> int) \<Rightarrow> PathTime list \<Rightarrow> 'fs state \<Rightarrow> 'fs state" where
  "flattenLoop sys cfg filenames [] s = s"
| "flattenLoop sys cfg filenames (file # rest) s =
     (case flattenName filenames (Base (Path file)) of
        (n, filenames1) \<Rightarrow>
          flattenLoop sys cfg filenames1 rest
            (snd ((if remove cfg then moveToDirectory sys cfg (Path file) (fdir cfg) n
                   else copyToDirectory sys cfg (Path file) (fdir cfg) n) s)))"

section \<open>\<^verbatim>\<open>RunE\<close> and \<^verbatim>\<open>Execute\<close>\<close>

text \<open>
  What the run reads before and during the walk, and the orders in which the two
  \<^verbatim>\<open>range\<close> loops visit their maps: the result of \<^verbatim>\<open>os.Stat\<close> on the input directory
  and on \<^verbatim>\<open>fdir\<close>, the entries of the walk, the keys of \<^verbatim>\<open>dupFiles\<close> and the keys of
  \<^verbatim>\<open>files\<close>.
\<close>

datatype stat = StatOk | StatNotExist | StatErr err

record env =
  statInput :: stat
  statFdir :: stat
  entries :: "entry list"
  dupOrder :: "PathTime list"
  filesOrder :: "string list"

text \<open>A list is a possible order of a \<^verbatim>\<open>range\<close> over a map: every key once.\<close>

definition range_order :: "('k \<rightharpoonup> 'v) \<Rightarrow> 'k list \<Rightarrow> bool" where
  "range_order m ks \<longleftrightarrow> distinct ks \<and> set ks = dom m"

datatype outcome = Return "err option" | Exit1

definition dupPhase ::
  "'fs sys \<Rightarrow> config \<Rightarrow> env \<Rightarrow> string \<Rightarrow> 'fs state \<Rightarrow> err option \<times> 'fs state" where
  "dupPhase sys cfg ev arg0 s =
     (if dedup cfg then
        (if rdup cfg then (None, dedupMove sys cfg (dupOrder ev) (logf (InfoMoveTo (ddir cfg)) s))
         else (None, dedupCopy sys cfg (dupOrder ev) (logf (InfoCopyTo (ddir cfg)) s)))
      else if rdup cfg then rdupRemove sys cfg arg0 (dupOrder ev) (logf (InfoRemoveFrom arg0) s)
      else (None, s))"

definition flattenPhase :: "'fs sys \<Rightarrow> config \<Rightarrow> env \<Rightarrow> 'fs state \<Rightarrow> 'fs state" where
  "flattenPhase sys cfg ev s =
     (if flatten cfg then
        flattenLoop sys cfg Map.empty (List.map_filter (files s) (filesOrder ev))
          (logf (InfoFlatten (fdir cfg)) s)
      else s)"

definition RunE ::
  "'fs sys \<Rightarrow> config \<Rightarrow> env \<Rightarrow> string list \<Rightarrow> 'fs state \<Rightarrow> outcome \<times> 'fs state" where
  "RunE sys cfg ev args s =
     (case args of
        [arg0] \<Rightarrow>
          if statInput ev = StatNotExist then
            (Return (Some (Errorf ''input directory to deduplicate file must exist'')), s)
          else if flatten cfg \<and> statFdir ev \<noteq> StatNotExist then
            (Return (Some (Errorf ''flatten directory must not exist'')), s)
          else
            (case Walk (entries ev) s of
               (FatalExit, s1) \<Rightarrow> (Exit1, s1)
             | (RetErr e, s1) \<Rightarrow> (Return (Some e), s1)
             | (RetNil, s1) \<Rightarrow>
                 (case dupPhase sys cfg ev arg0 s1 of
                    (Some e, s2) \<Rightarrow> (Return (Some e), s2)
                  | (None, s2) \<Rightarrow> (Return None, flattenPhase sys cfg ev s2)))
      | _ \<Rightarrow>
          (Return (Some (Errorf
             ''requires the path to the input directory to deduplicate files'')), s))"

text \<open>
  \<^verbatim>\<open>Execute\<close>: the exit status of the process, 1 when \<^verbatim>\<open>RunE\<close> returns an error (or
  \<^verbatim>\<open>logrus.Fatal\<close> has ended the process), 0 otherwise. The run starts from empty maps.
\<close>

definition Execute :: "'fs sys \<Rightarrow> config \<Rightarrow> env \<Rightarrow> string list \<Rightarrow> 'fs \<Rightarrow> nat \<times> 'fs state" where
  "Execute sys cfg ev args f =
     (case RunE sys cfg ev args (init f) of
        (Return None, s) \<Rightarrow> (0, s)
      | (Return (Some e), s) \<Rightarrow> (1, s)
      | (Exit1, s) \<Rightarrow> (1, s))"

section \<open>Notions used in the statements\<close>

text \<open>The record the callback builds for an entry: \<^verbatim>\<open>PathTime{path, info.ModTime()}\<close>.\<close>

definition record_of :: "entry \<Rightarrow> PathTime" where
  "record_of en = \<lparr>Path = path en, Time = ModTime en\<rparr>"

text \<open>
  An entry that reaches the hasher (a regular file that is not empty), and an entry on
  which no read fails, so that the callback returns \<^verbatim>\<open>nil\<close>.
\<close>

definition hashable :: "entry \<Rightarrow> bool" where
  "hashable en \<longleftrightarrow> \<not> IsDir en \<and> Size en \<noteq> 0"

definition readable :: "entry \<Rightarrow> bool" where
  "readable en \<longleftrightarrow>
     walkErr en = None \<and> (\<not> hashable en \<or> openErr en = None \<and> copyErr en = None)"

text \<open>
  \<open>beats m r\<close>: \<open>m\<close> is no newer than \<open>r\<close> and its path is no longer, and it is
  strictly older or strictly shorter. Then \<open>m\<close> replaces \<open>r\<close> and \<open>r\<close> does not
  replace \<open>m\<close>, whichever of the two the index sees first.
\<close>

definition beats :: "PathTime \<Rightarrow> PathTime \<Rightarrow> bool" where
  "beats m r \<longleftrightarrow>
     Time m \<le> Time r \<and> length (Path m) \<le> length (Path r) \<and>
     (Time m < Time r \<or> length (Path m) < length (Path r))"

text \<open>
  \<open>winner es m\<close>: among the entries \<open>es\<close>, the hashable entry \<open>m\<close> beats every other
  hashable entry with its fingerprint.
\<close>

definition winner :: "entry list \<Rightarrow> entry \<Rightarrow> bool" where
  "winner es m \<longleftrightarrow>
     hashable m \<and> m \<in> set es \<and>
     (\<forall>en\<in>set es. hashable en \<and> sha en = sha m \<longrightarrow>
        record_of en = record_of m \<or> beats (record_of m) (record_of en))"

text \<open>Every fingerprint of a hashable entry has a winner.\<close>

definition decided :: "entry list \<Rightarrow> bool" where
  "decided es \<longleftrightarrow>
     (\<forall>en\<in>set es. hashable en \<longrightarrow> (\<exists>m\<in>set es. sha m = sha en \<and> winner es m))"

text \<open>
  The length of a path in characters, as the specification words it: the number of
  code points of the UTF-8 text, that is the bytes that are not continuation bytes
  (\<^verbatim>\<open>0x80\<close> to \<^verbatim>\<open>0xBF\<close>). The program never computes it; \<^verbatim>\<open>len\<close> counts bytes.
\<close>

definition char_count :: "string \<Rightarrow> nat" where
  "char_count p = length (filter (\<lambda>c. \<not> (128 \<le> (of_char c :: nat) \<and> (of_char c :: nat) < 192)) p)"

text \<open>
  Two operating systems for the examples, on a file system that is the list of the
  calls it has served: one on which every call succeeds, one on which every call fails.
\<close>

definition sysOk :: "fsop list sys" where
  "sysOk op f = (None, f @ [op])"

definition sysFail :: "fsop list sys" where
  "sysFail op f = (Some (OsError ''permission denied''), f)"

text \<open>Entries for the examples: a readable file and a directory.\<close>

definition fileEntry :: "string \<Rightarrow> int \<Rightarrow> int \<Rightarrow> string \<Rightarrow> entry" where
  "fileEntry p n t h =
     \<lparr>path = p, walkErr = None, IsDir = False, Size = n, ModTime = t,
      openErr = None, copyErr = None, sha = h\<rparr>"

definition dirEntry :: "string \<Rightarrow> entry" where
  "dirEntry p =
     \<lparr>path = p, walkErr = None, IsDir = True, Size = 4096, ModTime = 0,
      openErr = None, copyErr = None, sha = []\<rparr>"

text \<open>The default values of the flags (\<^verbatim>\<open>init\<close> of the package).\<close>

definition flags :: config where
  "flags =
     \<lparr>ddir = ''./dupdump'', dedup = False, rdup = False, remove = False,
      fdir = ''./flatten'', flatten = False, dryrun = False\<rparr>"

section \<open>Facts about the index\<close>

lemma files_logf [simp]: "files (logf n s) = files s"
  by (simp add: logf_def)

lemma dupFiles_logf [simp]: "dupFiles (logf n s) = dupFiles s"
  by (simp add: logf_def)

lemma files_observe:
  "files (observe h r s) =
     (case files s h of
        None \<Rightarrow> (files s)(h \<mapsto> r)
      | Some old \<Rightarrow> if replaces old r then (files s)(h \<mapsto> r) else files s)"
  by (simp add: observe_def Let_def split: option.splits)

lemma dupFiles_observe:
  "dupFiles (observe h r s) =
     (case files s h of
        None \<Rightarrow> dupFiles s
      | Some old \<Rightarrow>
          if replaces old r then (dupFiles s)(old := None, r \<mapsto> True)
          else (dupFiles s)(r \<mapsto> True))"
  by (simp add: observe_def Let_def split: option.splits)

text \<open>
  C1 (content index partition). The claim asks that, when \<open>observe\<close> replaces the
  canonical record, the displaced record enters the duplicate collection and the new
  canonical record is absent from it. The code does the opposite: for every index in
  which \<open>old\<close> is canonical for \<open>h\<close> and every other record \<open>new\<close> that replaces it,
  after \<open>observe\<close> the record \<open>new\<close> is canonical and is in \<open>dupFiles\<close>, and \<open>old\<close>
  is not in \<open>dupFiles\<close>.
\<close>

theorem observe_replace_marks_winner_duplicate:
  assumes "files s h = Some old" and "replaces old new" and "new \<noteq> old"
  shows "files (observe h new s) h = Some new \<and>
         dupFiles (observe h new s) new = Some True \<and>
         dupFiles (observe h new s) old = None"
  using assms by (simp add: files_observe dupFiles_observe)

theorem observe_replace_marks_winner_duplicate_witness:
  "files (observe ''h'' \<lparr>Path = ''r/a/long.txt'', Time = 2\<rparr> (init ())) ''h''
     = Some \<lparr>Path = ''r/a/long.txt'', Time = 2\<rparr> \<and>
   replaces \<lparr>Path = ''r/a/long.txt'', Time = 2\<rparr> \<lparr>Path = ''r/b.txt'', Time = 1\<rparr> \<and>
   \<lparr>Path = ''r/b.txt'', Time = 1\<rparr> \<noteq> \<lparr>Path = ''r/a/long.txt'', Time = 2\<rparr> \<and>
   files (observeAll [(''h'', \<lparr>Path = ''r/a/long.txt'', Time = 2\<rparr>),
                      (''h'', \<lparr>Path = ''r/b.txt'', Time = 1\<rparr>)] (init ())) ''h''
     = Some \<lparr>Path = ''r/b.txt'', Time = 1\<rparr> \<and>
   dupFiles (observeAll [(''h'', \<lparr>Path = ''r/a/long.txt'', Time = 2\<rparr>),
                         (''h'', \<lparr>Path = ''r/b.txt'', Time = 1\<rparr>)] (init ()))
     \<lparr>Path = ''r/b.txt'', Time = 1\<rparr> = Some True \<and>
   dupFiles (observeAll [(''h'', \<lparr>Path = ''r/a/long.txt'', Time = 2\<rparr>),
                         (''h'', \<lparr>Path = ''r/b.txt'', Time = 1\<rparr>)] (init ()))
     \<lparr>Path = ''r/a/long.txt'', Time = 2\<rparr> = None"
proof -
  let ?old = "\<lparr>Path = ''r/a/long.txt'', Time = 2\<rparr>"
  let ?new = "\<lparr>Path = ''r/b.txt'', Time = 1\<rparr>"
  let ?s = "observe ''h'' ?old (init ())"
  have a: "files ?s ''h'' = Some ?old"
    by (simp add: files_observe init_def)
  have b: "replaces ?old ?new"
    by (simp add: replaces_def)
  have c: "?new \<noteq> ?old"
    by simp
  from observe_replace_marks_winner_duplicate [OF a b c] a b c
  show ?thesis by simp
qed

section \<open>Facts about the walk\<close>

lemma walkFn_readable_ret: "readable en \<Longrightarrow> fst (walkFn en s) = RetNil"
  by (auto simp: walkFn_def readable_def hashable_def Let_def split: option.splits)

lemma walkFn_readable_files:
  "readable en \<Longrightarrow>
   files (snd (walkFn en s)) =
     (if hashable en then
        (case files s (sha en) of
           None \<Rightarrow> (files s)(sha en \<mapsto> record_of en)
         | Some old \<Rightarrow>
             if replaces old (record_of en) then (files s)(sha en \<mapsto> record_of en)
             else files s)
      else files s)"
  by (auto simp: walkFn_def readable_def hashable_def Let_def files_observe record_of_def
           split: option.splits)

lemma Walk_Cons_readable:
  "readable en \<Longrightarrow> Walk (en # ens) s = Walk ens (snd (walkFn en s))"
  using walkFn_readable_ret [of en s] by (cases "walkFn en s") (simp split: ret.splits)

lemma Walk_readable_ret: "\<forall>en\<in>set es. readable en \<Longrightarrow> fst (Walk es s) = RetNil"
proof (induction es arbitrary: s)
  case Nil
  then show ?case by simp
next
  case (Cons en es)
  have r: "readable en" using Cons.prems by simp
  show ?case unfolding Walk_Cons_readable [OF r] using Cons by simp
qed

lemma beats_replaces: "beats m r \<Longrightarrow> replaces r m \<and> \<not> replaces m r"
  by (auto simp: beats_def replaces_def)

lemma not_replaces_self: "\<not> replaces r r"
  by (simp add: replaces_def)

text \<open>
  The invariant behind the tie-break results: once the canonical record of a fingerprint
  is \<open>m\<close> or a record \<open>m\<close> beats, and every record still to come with that fingerprint
  is \<open>m\<close> or beaten by \<open>m\<close>, the walk ends with \<open>m\<close> canonical.
\<close>

lemma Walk_winner:
  assumes "\<forall>en\<in>set es. readable en"
    and "hashable m"
    and "m \<in> set es \<or> files s (sha m) = Some (record_of m)"
    and "files s (sha m) = None \<or>
         (\<exists>r. files s (sha m) = Some r \<and> (r = record_of m \<or> beats (record_of m) r))"
    and "\<forall>en\<in>set es. hashable en \<and> sha en = sha m \<longrightarrow>
           record_of en = record_of m \<or> beats (record_of m) (record_of en)"
  shows "fst (Walk es s) = RetNil \<and> files (snd (Walk es s)) (sha m) = Some (record_of m)"
  using assms
proof (induction es arbitrary: s)
  case Nil
  then show ?case by simp
next
  case (Cons en es)
  let ?s1 = "snd (walkFn en s)"
  have r: "readable en" using Cons.prems(1) by simp
  have W: "Walk (en # es) s = Walk es ?s1" by (rule Walk_Cons_readable [OF r])
  have F: "files ?s1 =
     (if hashable en then
        (case files s (sha en) of
           None \<Rightarrow> (files s)(sha en \<mapsto> record_of en)
         | Some old \<Rightarrow>
             if replaces old (record_of en) then (files s)(sha en \<mapsto> record_of en)
             else files s)
      else files s)" by (rule walkFn_readable_files [OF r])
  have p1: "\<forall>e\<in>set es. readable e" using Cons.prems(1) by simp
  have p5: "\<forall>e\<in>set es. hashable e \<and> sha e = sha m \<longrightarrow>
           record_of e = record_of m \<or> beats (record_of m) (record_of e)"
    using Cons.prems(5) by simp
  have p3: "m \<in> set es \<or> files ?s1 (sha m) = Some (record_of m)"
  proof (cases "hashable en \<and> sha en = sha m")
    case False
    then have "files ?s1 (sha m) = files s (sha m)"
      unfolding F by (auto split: option.splits)
    moreover have "en \<noteq> m" using False Cons.prems(2) by auto
    ultimately show ?thesis using Cons.prems(3) by auto
  next
    case same: True
    then have d: "record_of en = record_of m \<or> beats (record_of m) (record_of en)"
      using Cons.prems(5) by simp
    show ?thesis
    proof (cases "record_of en = record_of m")
      case True
      with same Cons.prems(4) show ?thesis
        unfolding F by (auto simp: beats_replaces not_replaces_self split: option.splits)
    next
      case False
      then have b: "beats (record_of m) (record_of en)" using d by simp
      have ne: "en \<noteq> m" using False by auto
      show ?thesis
      proof (cases "m \<in> set es")
        case True
        then show ?thesis by simp
      next
        case False
        then have "files s (sha m) = Some (record_of m)"
          using Cons.prems(3) ne by auto
        then show ?thesis
          using same beats_replaces [OF b] unfolding F by simp
      qed
    qed
  qed
  have p4: "files ?s1 (sha m) = None \<or>
         (\<exists>r. files ?s1 (sha m) = Some r \<and> (r = record_of m \<or> beats (record_of m) r))"
  proof (cases "hashable en \<and> sha en = sha m")
    case False
    then have "files ?s1 (sha m) = files s (sha m)"
      unfolding F by (auto split: option.splits)
    then show ?thesis using Cons.prems(4) by simp
  next
    case True
    then have "record_of en = record_of m \<or> beats (record_of m) (record_of en)"
      using Cons.prems(5) by simp
    with True Cons.prems(4) show ?thesis
      unfolding F by (auto split: option.splits)
  qed
  show ?case
    unfolding W by (rule Cons.IH [OF p1 Cons.prems(2) p3 p4 p5])
qed

lemma Walk_files_None:
  assumes "\<forall>en\<in>set es. readable en" and "files s h = None"
    and "\<forall>en\<in>set es. hashable en \<longrightarrow> sha en \<noteq> h"
  shows "files (snd (Walk es s)) h = None"
  using assms
proof (induction es arbitrary: s)
  case Nil
  then show ?case by simp
next
  case (Cons en es)
  have r: "readable en" using Cons.prems(1) by simp
  have "files (snd (walkFn en s)) h = None"
    using Cons.prems(2,3) by (auto simp: walkFn_readable_files [OF r] split: option.splits)
  then show ?case
    using Cons.prems Cons.IH [of "snd (walkFn en s)"]
    unfolding Walk_Cons_readable [OF r] by simp
qed

lemma winner_set: "set es = set es' \<Longrightarrow> winner es m = winner es' m"
  by (simp add: winner_def)

lemma decided_set: "set es = set es' \<Longrightarrow> decided es = decided es'"
  by (simp add: decided_def winner_def)

lemma Walk_decided:
  assumes r: "\<forall>en\<in>set es. readable en" and w: "winner es m"
  shows "files (snd (Walk es (init f))) (sha m) = Some (record_of m)"
proof -
  have "fst (Walk es (init f)) = RetNil \<and>
        files (snd (Walk es (init f))) (sha m) = Some (record_of m)"
  proof (rule Walk_winner [OF r])
    show "hashable m" using w by (simp add: winner_def)
    show "m \<in> set es \<or> files (init f) (sha m) = Some (record_of m)"
      using w by (simp add: winner_def)
    show "files (init f) (sha m) = None \<or>
      (\<exists>r. files (init f) (sha m) = Some r \<and> (r = record_of m \<or> beats (record_of m) r))"
      by (simp add: init_def)
    show "\<forall>en\<in>set es. hashable en \<and> sha en = sha m \<longrightarrow>
       record_of en = record_of m \<or> beats (record_of m) (record_of en)"
      using w by (simp add: winner_def)
  qed
  then show ?thesis by simp
qed

text \<open>
  C2 (order-independence), as the code has it. The claim fails: the condition of line 98
  is a disjunction, so an older file with a longer path and a newer file with a shorter
  path each replace the other, and the canonical record is the one visited last.
\<close>

theorem canonical_depends_on_order_counterexample:
  "files (snd (Walk [fileEntry ''r/x/photo.jpg'' 9 1 ''c0'', fileEntry ''r/y.jpg'' 9 2 ''c0'']
                (init ()))) ''c0''
     = Some \<lparr>Path = ''r/y.jpg'', Time = 2\<rparr> \<and>
   files (snd (Walk [fileEntry ''r/y.jpg'' 9 2 ''c0'', fileEntry ''r/x/photo.jpg'' 9 1 ''c0'']
                (init ()))) ''c0''
     = Some \<lparr>Path = ''r/x/photo.jpg'', Time = 1\<rparr>"
  by (simp add: walkFn_def fileEntry_def init_def logf_def observe_def replaces_def Let_def)

text \<open>
  C2, amended. For a set of readable entries in which every fingerprint has a file that
  is no newer and has no longer path than each other file of that fingerprint, and is
  strictly older or strictly shorter than it, any two orders of the walk complete and
  give the same canonical record for every fingerprint. (Nothing is stated about
  \<open>dupFiles\<close>, see C1.)
\<close>

theorem canonical_order_independent:
  assumes "set es = set es'" and "\<forall>en\<in>set es. readable en" and "decided es"
  shows "fst (Walk es (init f)) = RetNil \<and> fst (Walk es' (init f)) = RetNil \<and>
         files (snd (Walk es (init f))) = files (snd (Walk es' (init f)))"
proof -
  have r': "\<forall>en\<in>set es'. readable en" using assms by simp
  have eq: "files (snd (Walk es (init f))) h = files (snd (Walk es' (init f))) h" for h
  proof (cases "\<exists>en\<in>set es. hashable en \<and> sha en = h")
    case True
    then obtain m where m: "sha m = h" "winner es m"
      using assms(3) by (auto simp: decided_def)
    have m': "winner es' m" using m(2) winner_set [OF assms(1)] by simp
    show ?thesis
      using Walk_decided [OF assms(2) m(2), of f] Walk_decided [OF r' m', of f] m(1)
      by simp
  next
    case False
    have a: "files (snd (Walk es (init f))) h = None"
      by (rule Walk_files_None [OF assms(2)]) (use False in \<open>auto simp: init_def\<close>)
    have b: "files (snd (Walk es' (init f))) h = None"
      by (rule Walk_files_None [OF r']) (use False assms(1) in \<open>auto simp: init_def\<close>)
    show ?thesis using a b by simp
  qed
  show ?thesis
    using Walk_readable_ret [OF assms(2)] Walk_readable_ret [OF r'] eq by auto
qed

theorem canonical_order_independent_witness:
  "set [fileEntry ''r/a.txt'' 3 1 ''c0'', dirEntry ''r/b'', fileEntry ''r/b/a.txt'' 3 2 ''c0'',
        fileEntry ''r/c.txt'' 5 2 ''c1'']
     = set [fileEntry ''r/c.txt'' 5 2 ''c1'', fileEntry ''r/b/a.txt'' 3 2 ''c0'', dirEntry ''r/b'',
            fileEntry ''r/a.txt'' 3 1 ''c0''] \<and>
   list_all readable [fileEntry ''r/a.txt'' 3 1 ''c0'', dirEntry ''r/b'',
        fileEntry ''r/b/a.txt'' 3 2 ''c0'', fileEntry ''r/c.txt'' 5 2 ''c1''] \<and>
   decided [fileEntry ''r/a.txt'' 3 1 ''c0'', dirEntry ''r/b'', fileEntry ''r/b/a.txt'' 3 2 ''c0'',
        fileEntry ''r/c.txt'' 5 2 ''c1''] \<and>
   files (snd (Walk [fileEntry ''r/a.txt'' 3 1 ''c0'', dirEntry ''r/b'',
                     fileEntry ''r/b/a.txt'' 3 2 ''c0'', fileEntry ''r/c.txt'' 5 2 ''c1'']
                (init ())))
     = files (snd (Walk [fileEntry ''r/c.txt'' 5 2 ''c1'', fileEntry ''r/b/a.txt'' 3 2 ''c0'',
                         dirEntry ''r/b'', fileEntry ''r/a.txt'' 3 1 ''c0''] (init ()))) \<and>
   files (snd (Walk [fileEntry ''r/c.txt'' 5 2 ''c1'', fileEntry ''r/b/a.txt'' 3 2 ''c0'',
                     dirEntry ''r/b'', fileEntry ''r/a.txt'' 3 1 ''c0''] (init ()))) ''c0''
     = Some \<lparr>Path = ''r/a.txt'', Time = 1\<rparr>"
proof -
  let ?es = "[fileEntry ''r/a.txt'' 3 1 ''c0'', dirEntry ''r/b'', fileEntry ''r/b/a.txt'' 3 2 ''c0'',
        fileEntry ''r/c.txt'' 5 2 ''c1'']"
  let ?es' = "[fileEntry ''r/c.txt'' 5 2 ''c1'', fileEntry ''r/b/a.txt'' 3 2 ''c0'', dirEntry ''r/b'',
            fileEntry ''r/a.txt'' 3 1 ''c0'']"
  have a: "set ?es = set ?es'" by auto
  have b: "\<forall>en\<in>set ?es. readable en"
    by (simp add: readable_def fileEntry_def dirEntry_def hashable_def)
  have c: "decided ?es"
    by (simp add: decided_def winner_def fileEntry_def dirEntry_def hashable_def beats_def
        record_of_def)
  have d: "files (snd (Walk ?es' (init ()))) ''c0'' = Some \<lparr>Path = ''r/a.txt'', Time = 1\<rparr>"
    by (simp add: walkFn_def fileEntry_def dirEntry_def init_def logf_def observe_def
        replaces_def Let_def)
  from canonical_order_independent [OF a b c, of "()"] a b c d
  show ?thesis by (simp add: list_all_iff)
qed

text \<open>
  C5 (end-to-end tie-break), as the code has it. The first half of the claim fails: the
  tree holds \<^verbatim>\<open>r/a/long.txt\<close> (older) and \<^verbatim>\<open>r/b.txt\<close> (newer) with the same content;
  the walk visits them in lexical order, the older file first, and the newer file ends
  canonical, because the path of the older one is longer.
\<close>

theorem newer_file_canonical_counterexample:
  "ModTime (fileEntry ''r/a/long.txt'' 7 1 ''c0'') < ModTime (fileEntry ''r/b.txt'' 7 2 ''c0'') \<and>
   Walk [dirEntry ''r'', dirEntry ''r/a'', fileEntry ''r/a/long.txt'' 7 1 ''c0'',
         fileEntry ''r/b.txt'' 7 2 ''c0''] (init ())
     = (RetNil,
        \<lparr>files = [''c0'' \<mapsto> \<lparr>Path = ''r/b.txt'', Time = 2\<rparr>],
         dupFiles = [\<lparr>Path = ''r/b.txt'', Time = 2\<rparr> \<mapsto> True],
         fs = (), calls = [], hashed = [''r/a/long.txt'', ''r/b.txt''],
         logs = [Found ''r/a/long.txt'' ''c0'', Found ''r/b.txt'' ''c0'']\<rparr>)"
  by (simp add: walkFn_def fileEntry_def dirEntry_def init_def logf_def observe_def replaces_def Let_def)

text \<open>
  C5, amended. In a walk of readable entries where \<open>a\<close> and \<open>b\<close> are the only two
  non-empty files with their content: if \<open>a\<close> is older than \<open>b\<close> and its path is no
  longer, or the two have the same modification time and the path of \<open>a\<close> is shorter,
  the walk completes and \<open>a\<close> is canonical, wherever the two stand in the order of the
  walk.
\<close>

theorem older_or_shorter_is_canonical:
  assumes "\<forall>en\<in>set es. readable en"
    and "a \<in> set es" and "b \<in> set es"
    and "hashable a" and "hashable b" and "sha b = sha a"
    and "\<forall>en\<in>set es. hashable en \<and> sha en = sha a \<longrightarrow> en = a \<or> en = b"
    and "ModTime a < ModTime b \<and> length (path a) \<le> length (path b) \<or>
         ModTime a = ModTime b \<and> length (path a) < length (path b)"
  shows "fst (Walk es (init f)) = RetNil \<and>
         files (snd (Walk es (init f))) (sha a) = Some (record_of a)"
proof (rule Walk_winner [OF assms(1) assms(4)])
  show "a \<in> set es \<or> files (init f) (sha a) = Some (record_of a)"
    using assms(2) by simp
  show "files (init f) (sha a) = None \<or>
    (\<exists>r. files (init f) (sha a) = Some r \<and> (r = record_of a \<or> beats (record_of a) r))"
    by (simp add: init_def)
  have "beats (record_of a) (record_of b)"
    using assms(8) by (auto simp: beats_def record_of_def)
  then show "\<forall>en\<in>set es. hashable en \<and> sha en = sha a \<longrightarrow>
     record_of en = record_of a \<or> beats (record_of a) (record_of en)"
    using assms(7) by auto
qed

theorem older_or_shorter_is_canonical_witness:
  "list_all readable [dirEntry ''r'', fileEntry ''r/a.txt'' 3 1 ''c0'', fileEntry ''r/bb.txt'' 3 2 ''c0''] \<and>
   files (snd (Walk [dirEntry ''r'', fileEntry ''r/a.txt'' 3 1 ''c0'', fileEntry ''r/bb.txt'' 3 2 ''c0''] (init ()))) ''c0''
     = Some \<lparr>Path = ''r/a.txt'', Time = 1\<rparr> \<and>
   files (snd (Walk [dirEntry ''r'', fileEntry ''r/bb.txt'' 3 2 ''c0'', fileEntry ''r/a.txt'' 3 1 ''c0''] (init ()))) ''c0''
     = Some \<lparr>Path = ''r/a.txt'', Time = 1\<rparr> \<and>
   files (snd (Walk [dirEntry ''r'', fileEntry ''r/k.txt'' 3 5 ''c1'', fileEntry ''r/long.txt'' 3 5 ''c1''] (init ()))) ''c1''
     = Some \<lparr>Path = ''r/k.txt'', Time = 5\<rparr>"
proof -
  let ?d = "dirEntry ''r''"
  let ?a = "fileEntry ''r/a.txt'' 3 1 ''c0''"
  let ?b = "fileEntry ''r/bb.txt'' 3 2 ''c0''"
  let ?k = "fileEntry ''r/k.txt'' 3 5 ''c1''"
  let ?l = "fileEntry ''r/long.txt'' 3 5 ''c1''"
  have r1: "\<forall>en\<in>set [?d, ?a, ?b]. readable en"
    by (simp add: readable_def fileEntry_def dirEntry_def hashable_def)
  have r2: "\<forall>en\<in>set [?d, ?b, ?a]. readable en"
    by (simp add: readable_def fileEntry_def dirEntry_def hashable_def)
  have r3: "\<forall>en\<in>set [?d, ?k, ?l]. readable en"
    by (simp add: readable_def fileEntry_def dirEntry_def hashable_def)
  have ha: "hashable ?a" "hashable ?b" "hashable ?k" "hashable ?l"
    by (simp_all add: fileEntry_def hashable_def)
  have sh: "sha ?b = sha ?a" "sha ?l = sha ?k" by (simp_all add: fileEntry_def)
  have o1: "\<forall>en\<in>set [?d, ?a, ?b]. hashable en \<and> sha en = sha ?a \<longrightarrow> en = ?a \<or> en = ?b"
    by (simp add: fileEntry_def dirEntry_def hashable_def)
  have o2: "\<forall>en\<in>set [?d, ?b, ?a]. hashable en \<and> sha en = sha ?a \<longrightarrow> en = ?a \<or> en = ?b"
    by (simp add: fileEntry_def dirEntry_def hashable_def)
  have o3: "\<forall>en\<in>set [?d, ?k, ?l]. hashable en \<and> sha en = sha ?k \<longrightarrow> en = ?k \<or> en = ?l"
    by (simp add: fileEntry_def dirEntry_def hashable_def)
  have c1: "ModTime ?a < ModTime ?b \<and> length (path ?a) \<le> length (path ?b) \<or>
         ModTime ?a = ModTime ?b \<and> length (path ?a) < length (path ?b)"
    by (simp add: fileEntry_def)
  have c3: "ModTime ?k < ModTime ?l \<and> length (path ?k) \<le> length (path ?l) \<or>
         ModTime ?k = ModTime ?l \<and> length (path ?k) < length (path ?l)"
    by (simp add: fileEntry_def)
  have m1: "?a \<in> set [?d, ?a, ?b]" "?b \<in> set [?d, ?a, ?b]" by simp_all
  have m2: "?a \<in> set [?d, ?b, ?a]" "?b \<in> set [?d, ?b, ?a]" by simp_all
  have m3: "?k \<in> set [?d, ?k, ?l]" "?l \<in> set [?d, ?k, ?l]" by simp_all
  from older_or_shorter_is_canonical [OF r1 m1 ha(1,2) sh(1) o1 c1, of "()"]
       older_or_shorter_is_canonical [OF r2 m2 ha(1,2) sh(1) o2 c1, of "()"]
       older_or_shorter_is_canonical [OF r3 m3 ha(3,4) sh(2) o3 c3, of "()"]
       r1
  show ?thesis by (simp add: list_all_iff record_of_def fileEntry_def)
qed

section \<open>The resolver\<close>

text \<open>
  C4 (resolver precedence), as the code has it. The claim measures the paths in
  characters; the code compares \<^verbatim>\<open>len(old.Path)\<close> and \<^verbatim>\<open>len(path)\<close>, which count
  bytes. The old path \<^verbatim>\<open>r/a\<close> followed by the two bytes of a UTF-8 e-acute has four
  characters and five bytes, the new path \<^verbatim>\<open>r/bc\<close> has four characters and four bytes:
  with equal timestamps and equal character lengths the new record becomes canonical.
\<close>

theorem byte_length_not_character_length_counterexample:
  "Time \<lparr>Path = ''r/a'' @ [CHR 0xC3, CHR 0xA9], Time = 1\<rparr> = Time \<lparr>Path = ''r/bc'', Time = 1\<rparr> \<and>
   char_count (Path \<lparr>Path = ''r/a'' @ [CHR 0xC3, CHR 0xA9], Time = 1\<rparr>)
     = char_count (Path \<lparr>Path = ''r/bc'', Time = 1\<rparr>) \<and>
   files (observeAll [(''c0'', \<lparr>Path = ''r/a'' @ [CHR 0xC3, CHR 0xA9], Time = 1\<rparr>),
                      (''c0'', \<lparr>Path = ''r/bc'', Time = 1\<rparr>)] (init ())) ''c0''
     = Some \<lparr>Path = ''r/bc'', Time = 1\<rparr>"
  by (simp add: char_count_def observe_def init_def replaces_def Let_def)

text \<open>
  C4, amended: with the length of a path counted in bytes. When \<open>old\<close> is canonical for
  the fingerprint of \<open>new\<close>, after \<open>observe\<close> the canonical record is \<open>new\<close> if
  \<open>old\<close> is strictly newer or its path has strictly more bytes, and \<open>old\<close> in every
  other case, in which \<open>new\<close> is put in \<open>dupFiles\<close>. The canonical record is given as
  a function of the two records alone.
\<close>

theorem resolver_precedence:
  assumes "files s h = Some old"
  shows "files (observe h new s) h =
           Some (if Time new < Time old \<or> length (Path new) < length (Path old)
                 then new else old) \<and>
         (\<not> (Time new < Time old \<or> length (Path new) < length (Path old)) \<longrightarrow>
            dupFiles (observe h new s) new = Some True)"
  using assms by (simp add: files_observe dupFiles_observe replaces_def)

theorem resolver_precedence_witness:
  "files (observe ''c0'' \<lparr>Path = ''r/a.txt'', Time = 5\<rparr> (init ())) ''c0''
     = Some \<lparr>Path = ''r/a.txt'', Time = 5\<rparr> \<and>
   files (observe ''c0'' \<lparr>Path = ''r/b.txt'', Time = 5\<rparr>
            (observe ''c0'' \<lparr>Path = ''r/a.txt'', Time = 5\<rparr> (init ()))) ''c0''
     = Some \<lparr>Path = ''r/a.txt'', Time = 5\<rparr> \<and>
   dupFiles (observe ''c0'' \<lparr>Path = ''r/b.txt'', Time = 5\<rparr>
            (observe ''c0'' \<lparr>Path = ''r/a.txt'', Time = 5\<rparr> (init ())))
      \<lparr>Path = ''r/b.txt'', Time = 5\<rparr> = Some True \<and>
   files (observe ''c0'' \<lparr>Path = ''r/b.txt'', Time = 4\<rparr>
            (observe ''c0'' \<lparr>Path = ''r/a.txt'', Time = 5\<rparr> (init ()))) ''c0''
     = Some \<lparr>Path = ''r/b.txt'', Time = 4\<rparr> \<and>
   files (observe ''c0'' \<lparr>Path = ''r/b'', Time = 9\<rparr>
            (observe ''c0'' \<lparr>Path = ''r/a.txt'', Time = 5\<rparr> (init ()))) ''c0''
     = Some \<lparr>Path = ''r/b'', Time = 9\<rparr>"
proof -
  let ?s = "observe ''c0'' \<lparr>Path = ''r/a.txt'', Time = 5\<rparr> (init ())"
  have a: "files ?s ''c0'' = Some \<lparr>Path = ''r/a.txt'', Time = 5\<rparr>"
    by (simp add: files_observe init_def)
  from resolver_precedence [OF a, of "\<lparr>Path = ''r/b.txt'', Time = 5\<rparr>"]
       resolver_precedence [OF a, of "\<lparr>Path = ''r/b.txt'', Time = 4\<rparr>"]
       resolver_precedence [OF a, of "\<lparr>Path = ''r/b'', Time = 9\<rparr>"] a
  show ?thesis by simp
qed

section \<open>The flatten namer\<close>

lemma Sprint_neq: "Sprint b x \<noteq> b"
  by (simp add: Sprint_def Itoa_def)

text \<open>
  \<open>flattenNames\<close> lists the names the loop of \<^verbatim>\<open>RunE\<close> uses: the notices of
  \<open>flattenLoop\<close> carry, for each record in turn, its target under the name
  \<open>flattenNames\<close> gives it (read off a dry run, where each step only logs).
\<close>

lemma flattenLoop_logs:
  "dryrun cfg \<Longrightarrow>
   logs (flattenLoop sys cfg names rs s) =
     logs s @
     map (\<lambda>(r, n). (if remove cfg then Moving else Copying) (Path r)
                       (target (Path r) (fdir cfg) n))
         (zip rs (flattenNames names rs))"
proof (induction rs arbitrary: names s)
  case Nil
  then show ?case by simp
next
  case (Cons r rs)
  then show ?case
    by (cases "flattenName names (Base (Path r))")
       (simp add: moveToDirectory_def copyToDirectory_def Let_def logf_def)
qed

text \<open>
  C3 (flatten namer injectivity). The claim asks for pairwise distinct names; the
  comment at line 143 says the same (\<^verbatim>\<open>we'll make them unique\<close>). The counter that is
  incremented is the one of the suffixed name, so the counter of the base name stays 1:
  of any three records with the same base name \<open>b\<close>, visited with empty counters, the
  second and the third both get the name \<open>b\<close> followed by \<^verbatim>\<open>1\<close>.
\<close>

theorem flatten_third_name_collides:
  assumes "Base (Path r1) = b" and "Base (Path r2) = b" and "Base (Path r3) = b"
  shows "flattenNames Map.empty [r1, r2, r3] = [b, Sprint b 1, Sprint b 1]"
  using assms Sprint_neq [of b 1] by (simp add: flattenName_def Let_def)

theorem flatten_third_name_collides_witness:
  "flattenNames Map.empty
     [\<lparr>Path = ''r/x/a.txt'', Time = 1\<rparr>, \<lparr>Path = ''r/y/a.txt'', Time = 2\<rparr>,
      \<lparr>Path = ''r/z/a.txt'', Time = 3\<rparr>]
   = [''a.txt'', ''a.txt1'', ''a.txt1''] \<and>
   calls (snd (Execute sysOk (flags\<lparr>flatten := True\<rparr>)
     \<lparr>statInput = StatOk, statFdir = StatNotExist,
      entries = [dirEntry ''r'', dirEntry ''r/x'', fileEntry ''r/x/a.txt'' 5 1 ''c0'',
                 dirEntry ''r/y'', fileEntry ''r/y/a.txt'' 6 2 ''c1'',
                 dirEntry ''r/z'', fileEntry ''r/z/a.txt'' 7 3 ''c2''],
      dupOrder = [], filesOrder = [''c0'', ''c1'', ''c2'']\<rparr> [''r''] []))
   = [MkdirAll ''flatten'', Open ''r/x/a.txt'', Create ''flatten/a.txt'',
      Copy ''flatten/a.txt'' ''r/x/a.txt'', Sync ''flatten/a.txt'',
      Close ''flatten/a.txt'', Close ''r/x/a.txt'',
      MkdirAll ''flatten'', Open ''r/y/a.txt'', Create ''flatten/a.txt1'',
      Copy ''flatten/a.txt1'' ''r/y/a.txt'', Sync ''flatten/a.txt1'',
      Close ''flatten/a.txt1'', Close ''r/y/a.txt'',
      MkdirAll ''flatten'', Open ''r/z/a.txt'', Create ''flatten/a.txt1'',
      Copy ''flatten/a.txt1'' ''r/z/a.txt'', Sync ''flatten/a.txt1'',
      Close ''flatten/a.txt1'', Close ''r/z/a.txt'']"
proof -
  have b: "Base ''r/x/a.txt'' = ''a.txt''" "Base ''r/y/a.txt'' = ''a.txt''"
    "Base ''r/z/a.txt'' = ''a.txt''"
    by (simp_all add: Base_def)
  have s: "Sprint ''a.txt'' 1 = ''a.txt1''"
    by (simp add: Sprint_def Itoa_def)
  have n: "flattenNames Map.empty
     [\<lparr>Path = ''r/x/a.txt'', Time = 1\<rparr>, \<lparr>Path = ''r/y/a.txt'', Time = 2\<rparr>,
      \<lparr>Path = ''r/z/a.txt'', Time = 3\<rparr>] = [''a.txt'', ''a.txt1'', ''a.txt1'']"
    using flatten_third_name_collides [of "\<lparr>Path = ''r/x/a.txt'', Time = 1\<rparr>" "''a.txt''"
        "\<lparr>Path = ''r/y/a.txt'', Time = 2\<rparr>" "\<lparr>Path = ''r/z/a.txt'', Time = 3\<rparr>"] b s
    by simp
  have c: "calls (snd (Execute sysOk (flags\<lparr>flatten := True\<rparr>)
     \<lparr>statInput = StatOk, statFdir = StatNotExist,
      entries = [dirEntry ''r'', dirEntry ''r/x'', fileEntry ''r/x/a.txt'' 5 1 ''c0'',
                 dirEntry ''r/y'', fileEntry ''r/y/a.txt'' 6 2 ''c1'',
                 dirEntry ''r/z'', fileEntry ''r/z/a.txt'' 7 3 ''c2''],
      dupOrder = [], filesOrder = [''c0'', ''c1'', ''c2'']\<rparr> [''r''] []))
   = [MkdirAll ''flatten'', Open ''r/x/a.txt'', Create ''flatten/a.txt'',
      Copy ''flatten/a.txt'' ''r/x/a.txt'', Sync ''flatten/a.txt'',
      Close ''flatten/a.txt'', Close ''r/x/a.txt'',
      MkdirAll ''flatten'', Open ''r/y/a.txt'', Create ''flatten/a.txt1'',
      Copy ''flatten/a.txt1'' ''r/y/a.txt'', Sync ''flatten/a.txt1'',
      Close ''flatten/a.txt1'', Close ''r/y/a.txt'',
      MkdirAll ''flatten'', Open ''r/z/a.txt'', Create ''flatten/a.txt1'',
      Copy ''flatten/a.txt1'' ''r/z/a.txt'', Sync ''flatten/a.txt1'',
      Close ''flatten/a.txt1'', Close ''r/z/a.txt'']"
    by code_simp
  from n c show ?thesis by simp
qed

section \<open>The executor\<close>

text \<open>
  C6 (remove-in-place targets the original). The claim asks that the path handed to
  \<^verbatim>\<open>os.Remove\<close> is the path of the walk. Line 127 joins the parent of the input
  directory with a path that already starts with the input directory: for the input
  directory \<^verbatim>\<open>a/b\<close> and the duplicate \<^verbatim>\<open>a/b/g.txt\<close> the run removes
  \<^verbatim>\<open>a/a/b/g.txt\<close>.
\<close>

theorem rdup_removes_wrong_path:
  "(case Execute sysOk (flags\<lparr>rdup := True\<rparr>)
      \<lparr>statInput = StatOk, statFdir = StatNotExist,
       entries = [dirEntry ''a/b'', fileEntry ''a/b/f.txt'' 4 1 ''c0'',
                  fileEntry ''a/b/g.txt'' 4 1 ''c0''],
       dupOrder = [\<lparr>Path = ''a/b/g.txt'', Time = 1\<rparr>], filesOrder = [''c0'']\<rparr>
      [''a/b''] [] of
      (st, s) \<Rightarrow>
        dom (dupFiles s) = {\<lparr>Path = ''a/b/g.txt'', Time = 1\<rparr>} \<and>
        logs s = [Found ''a/b/f.txt'' ''c0'', Found ''a/b/g.txt'' ''c0'',
                  InfoRemoveFrom ''a/b'', Removing ''a/a/b/g.txt''] \<and>
        calls s = [Remove ''a/a/b/g.txt''])"
  by (simp add: Execute_def RunE_def dupPhase_def flattenPhase_def flags_def walkFn_def init_def
      fileEntry_def dirEntry_def logf_def observe_def replaces_def Let_def removeTarget_def
      Join_def Dir_def Clean_def clean_step_def exec_def sysOk_def)

text \<open>
  C7 (no swallowed executor errors). The claim asks that every failure of the executor
  ends the run with a status that is not zero. In the \<^verbatim>\<open>dedup\<close> branch and in the
  flatten loop the results of \<^verbatim>\<open>copyToDirectory\<close> and \<^verbatim>\<open>moveToDirectory\<close> are
  dropped: whatever the operating system answers, a run with \<^verbatim>\<open>dedup\<close> whose walk
  succeeds exits with status 0.
\<close>

theorem dedup_errors_discarded:
  assumes "dedup cfg"
    and "statInput ev \<noteq> StatNotExist"
    and "\<not> flatten cfg \<or> statFdir ev = StatNotExist"
    and "fst (Walk (entries ev) (init f)) = RetNil"
  shows "fst (Execute sys cfg ev [arg0] f) = 0"
proof -
  obtain s1 where w: "Walk (entries ev) (init f) = (RetNil, s1)"
    using assms(4) by (cases "Walk (entries ev) (init f)") simp
  have d: "fst (dupPhase sys cfg ev arg0 s1) = None"
    using assms(1) by (simp add: dupPhase_def)
  then obtain s2 where d2: "dupPhase sys cfg ev arg0 s1 = (None, s2)"
    by (cases "dupPhase sys cfg ev arg0 s1") simp
  show ?thesis
    using assms(2,3) w d2 by (auto simp: Execute_def RunE_def)
qed

theorem dedup_errors_discarded_witness:
  "(case Execute sysFail (flags\<lparr>dedup := True\<rparr>)
      \<lparr>statInput = StatOk, statFdir = StatNotExist,
       entries = [dirEntry ''r'', fileEntry ''r/f.txt'' 4 1 ''c0'',
                  fileEntry ''r/g.txt'' 4 1 ''c0''],
       dupOrder = [\<lparr>Path = ''r/g.txt'', Time = 1\<rparr>], filesOrder = [''c0'']\<rparr>
      [''r''] [] of
      (st, s) \<Rightarrow>
        st = 0 \<and>
        dom (dupFiles s) = {\<lparr>Path = ''r/g.txt'', Time = 1\<rparr>} \<and>
        calls s = [MkdirAll ''dupdump/r''] \<and>
        logs s = [Found ''r/f.txt'' ''c0'', Found ''r/g.txt'' ''c0'', InfoCopyTo ''./dupdump'',
                  Copying ''r/g.txt'' ''dupdump/r/g.txt'',
                  LogError (OsError ''permission denied'')])"
proof -
  let ?cfg = "flags\<lparr>dedup := True\<rparr>"
  let ?ev = "\<lparr>statInput = StatOk, statFdir = StatNotExist,
       entries = [dirEntry ''r'', fileEntry ''r/f.txt'' 4 1 ''c0'',
                  fileEntry ''r/g.txt'' 4 1 ''c0''],
       dupOrder = [\<lparr>Path = ''r/g.txt'', Time = 1\<rparr>], filesOrder = [''c0'']\<rparr>"
  have a: "dedup ?cfg" by (simp add: flags_def)
  have b: "statInput ?ev \<noteq> StatNotExist" by simp
  have c: "\<not> flatten ?cfg \<or> statFdir ?ev = StatNotExist" by simp
  have d: "fst (Walk (entries ?ev) (init [])) = RetNil"
    by (simp add: walkFn_def init_def fileEntry_def dirEntry_def logf_def observe_def
        replaces_def Let_def)
  have e: "snd (Execute sysFail ?cfg ?ev [''r''] []) =
     \<lparr>files = [''c0'' \<mapsto> \<lparr>Path = ''r/f.txt'', Time = 1\<rparr>],
      dupFiles = [\<lparr>Path = ''r/g.txt'', Time = 1\<rparr> \<mapsto> True],
      fs = [], calls = [MkdirAll ''dupdump/r''],
      hashed = [''r/f.txt'', ''r/g.txt''],
      logs = [Found ''r/f.txt'' ''c0'', Found ''r/g.txt'' ''c0'', InfoCopyTo ''./dupdump'',
                  Copying ''r/g.txt'' ''dupdump/r/g.txt'',
                  LogError (OsError ''permission denied'')]\<rparr>"
    by (simp add: Execute_def RunE_def dupPhase_def flattenPhase_def flags_def walkFn_def
      init_def fileEntry_def dirEntry_def logf_def observe_def replaces_def Let_def
      copyToDirectory_def target_def Join_def Dir_def Clean_def clean_step_def exec_def
      sysFail_def)
  from dedup_errors_discarded [OF a b c d, of sysFail "''r''"] e
  show ?thesis by (cases "Execute sysFail ?cfg ?ev [''r''] []") simp
qed

section \<open>Dry run\<close>

lemma fs_logf [simp]: "fs (logf n s) = fs s"
  by (simp add: logf_def)

lemma calls_logf [simp]: "calls (logf n s) = calls s"
  by (simp add: logf_def)

lemma hashed_logf [simp]: "hashed (logf n s) = hashed s"
  by (simp add: logf_def)

lemma fs_observe [simp]: "fs (observe h r s) = fs s"
  by (simp add: observe_def Let_def split: option.splits)

lemma calls_observe [simp]: "calls (observe h r s) = calls s"
  by (simp add: observe_def Let_def split: option.splits)

lemma hashed_observe [simp]: "hashed (observe h r s) = hashed s"
  by (simp add: observe_def Let_def split: option.splits)

lemma walkFn_frame:
  "fs (snd (walkFn en s)) = fs s \<and> calls (snd (walkFn en s)) = calls s"
  by (simp add: walkFn_def Let_def split: option.splits)

lemma Walk_frame: "fs (snd (Walk es s)) = fs s \<and> calls (snd (Walk es s)) = calls s"
proof (induction es arbitrary: s)
  case Nil
  then show ?case by simp
next
  case (Cons en es)
  obtain r s1 where w: "walkFn en s = (r, s1)" by (cases "walkFn en s")
  have f: "fs s1 = fs s \<and> calls s1 = calls s"
    using walkFn_frame [of en s] w by simp
  show ?case
    using Cons.IH [of s1] f w by (cases r) simp_all
qed

lemma copyToDirectory_dryrun:
  "dryrun cfg \<Longrightarrow>
   copyToDirectory sys cfg filename d n s = (None, logf (Copying filename (target filename d n)) s)"
  by (simp add: copyToDirectory_def Let_def)

lemma moveToDirectory_dryrun:
  "dryrun cfg \<Longrightarrow>
   moveToDirectory sys cfg filename d n s = (None, logf (Moving filename (target filename d n)) s)"
  by (simp add: moveToDirectory_def Let_def)

lemma dedupMove_dryrun:
  "dryrun cfg \<Longrightarrow>
   fs (dedupMove sys cfg ds s) = fs s \<and> calls (dedupMove sys cfg ds s) = calls s"
  by (induction ds arbitrary: s) (simp_all add: moveToDirectory_dryrun)

lemma dedupCopy_dryrun:
  "dryrun cfg \<Longrightarrow>
   fs (dedupCopy sys cfg ds s) = fs s \<and> calls (dedupCopy sys cfg ds s) = calls s"
  by (induction ds arbitrary: s) (simp_all add: copyToDirectory_dryrun)

lemma rdupRemove_dryrun:
  "dryrun cfg \<Longrightarrow>
   rdupRemove sys cfg arg0 ds s =
     (None, foldl (\<lambda>s1 file. logf (Removing (removeTarget arg0 file)) s1) s ds)"
  by (induction ds arbitrary: s) (simp_all add: Let_def)

lemma foldl_logf_frame:
  "fs (foldl (\<lambda>s1 x. logf (g x) s1) s xs) = fs s \<and>
   calls (foldl (\<lambda>s1 x. logf (g x) s1) s xs) = calls s"
  by (induction xs arbitrary: s) simp_all

lemma flattenLoop_dryrun:
  "dryrun cfg \<Longrightarrow>
   fs (flattenLoop sys cfg names rs s) = fs s \<and> calls (flattenLoop sys cfg names rs s) = calls s"
proof (induction rs arbitrary: names s)
  case Nil
  then show ?case by simp
next
  case (Cons r rs)
  then show ?case
    by (cases "flattenName names (Base (Path r))")
       (simp add: moveToDirectory_dryrun copyToDirectory_dryrun)
qed

lemma dupPhase_dryrun:
  "dryrun cfg \<Longrightarrow>
   fs (snd (dupPhase sys cfg ev arg0 s)) = fs s \<and>
   calls (snd (dupPhase sys cfg ev arg0 s)) = calls s"
  by (simp add: dupPhase_def dedupMove_dryrun dedupCopy_dryrun rdupRemove_dryrun
      foldl_logf_frame)

lemma flattenPhase_dryrun:
  "dryrun cfg \<Longrightarrow>
   fs (flattenPhase sys cfg ev s) = fs s \<and> calls (flattenPhase sys cfg ev s) = calls s"
  by (simp add: flattenPhase_def flattenLoop_dryrun)

lemma RunE_dryrun:
  assumes "dryrun cfg"
  shows "fs (snd (RunE sys cfg ev args s)) = fs s \<and>
         calls (snd (RunE sys cfg ev args s)) = calls s"
proof (cases "\<exists>arg0. args = [arg0]")
  case False
  then show ?thesis
    by (cases args) (simp_all add: RunE_def split: list.splits)
next
  case True
  then obtain arg0 where a: "args = [arg0]" by blast
  obtain r s1 where w: "Walk (entries ev) s = (r, s1)" by (cases "Walk (entries ev) s")
  have f1: "fs s1 = fs s \<and> calls s1 = calls s"
    using Walk_frame [of "entries ev" s] w by simp
  obtain e s2 where d: "dupPhase sys cfg ev arg0 s1 = (e, s2)"
    by (cases "dupPhase sys cfg ev arg0 s1")
  have f2: "fs s2 = fs s \<and> calls s2 = calls s"
    using dupPhase_dryrun [OF assms, of sys ev arg0 s1] d f1 by simp
  have f3: "fs (flattenPhase sys cfg ev s2) = fs s \<and> calls (flattenPhase sys cfg ev s2) = calls s"
    using flattenPhase_dryrun [OF assms, of sys ev s2] f2 by simp
  show ?thesis
    using a w d f1 f2 f3
    by (cases r; cases e) (simp_all add: RunE_def)
qed

text \<open>
  C8 (dry-run no-op). With \<^verbatim>\<open>dryrun\<close> set, for every operating system, every
  configuration of the other flags, every input and every state, \<^verbatim>\<open>RunE\<close> leaves the
  file system as it was and makes no file-system call; \<^verbatim>\<open>copyToDirectory\<close> and
  \<^verbatim>\<open>moveToDirectory\<close> only log their notice and return \<^verbatim>\<open>nil\<close>, and the
  remove-in-place loop only logs one notice for each duplicate.
\<close>

theorem dryrun_no_mutation:
  assumes "dryrun cfg"
  shows "fs (snd (RunE sys cfg ev args s)) = fs s \<and>
         calls (snd (RunE sys cfg ev args s)) = calls s \<and>
         copyToDirectory sys cfg filename d n s
           = (None, logf (Copying filename (target filename d n)) s) \<and>
         moveToDirectory sys cfg filename d n s
           = (None, logf (Moving filename (target filename d n)) s) \<and>
         rdupRemove sys cfg arg0 ds s
           = (None, foldl (\<lambda>s1 file. logf (Removing (removeTarget arg0 file)) s1) s ds)"
  by (simp add: RunE_dryrun [OF assms] copyToDirectory_dryrun [OF assms]
      moveToDirectory_dryrun [OF assms] rdupRemove_dryrun [OF assms])


theorem dryrun_no_mutation_witness:
  "dryrun (flags\<lparr>dedup := True, rdup := True, flatten := True, remove := True, dryrun := True\<rparr>) \<and>
   RunE sysOk (flags\<lparr>dedup := True, rdup := True, flatten := True, remove := True, dryrun := True\<rparr>)
     \<lparr>statInput = StatOk, statFdir = StatNotExist,
      entries = [dirEntry ''r'', fileEntry ''r/f.txt'' 4 1 ''c0'', fileEntry ''r/g.txt'' 4 1 ''c0''],
      dupOrder = [\<lparr>Path = ''r/g.txt'', Time = 1\<rparr>], filesOrder = [''c0'']\<rparr>
     [''r''] (init [])
   = (Return None,
      \<lparr>files = [''c0'' \<mapsto> \<lparr>Path = ''r/f.txt'', Time = 1\<rparr>],
       dupFiles = [\<lparr>Path = ''r/g.txt'', Time = 1\<rparr> \<mapsto> True],
       fs = [], calls = [], hashed = [''r/f.txt'', ''r/g.txt''],
       logs = [Found ''r/f.txt'' ''c0'', Found ''r/g.txt'' ''c0'', InfoMoveTo ''./dupdump'',
               Moving ''r/g.txt'' ''dupdump/r/g.txt'', InfoFlatten ''./flatten'',
               Moving ''r/f.txt'' ''flatten/f.txt'']\<rparr>)"
proof -
  let ?cfg = "flags\<lparr>dedup := True, rdup := True, flatten := True, remove := True, dryrun := True\<rparr>"
  let ?ev = "\<lparr>statInput = StatOk, statFdir = StatNotExist,
      entries = [dirEntry ''r'', fileEntry ''r/f.txt'' 4 1 ''c0'', fileEntry ''r/g.txt'' 4 1 ''c0''],
      dupOrder = [\<lparr>Path = ''r/g.txt'', Time = 1\<rparr>], filesOrder = [''c0'']\<rparr>"
  have a: "dryrun ?cfg" by (simp add: flags_def)
  have full: "RunE sysOk ?cfg ?ev [''r''] (init []) =
     (Return None,
      \<lparr>files = [''c0'' \<mapsto> \<lparr>Path = ''r/f.txt'', Time = 1\<rparr>],
       dupFiles = [\<lparr>Path = ''r/g.txt'', Time = 1\<rparr> \<mapsto> True],
       fs = [], calls = [], hashed = [''r/f.txt'', ''r/g.txt''],
       logs = [Found ''r/f.txt'' ''c0'', Found ''r/g.txt'' ''c0'', InfoMoveTo ''./dupdump'',
               Moving ''r/g.txt'' ''dupdump/r/g.txt'', InfoFlatten ''./flatten'',
               Moving ''r/f.txt'' ''flatten/f.txt'']\<rparr>)"
    by (simp add: RunE_def dupPhase_def flattenPhase_def flags_def walkFn_def init_def
        fileEntry_def dirEntry_def logf_def observe_def replaces_def Let_def
        moveToDirectory_def target_def Join_def Clean_def clean_step_def Base_def
        flattenName_def List.map_filter_simps)
  from dryrun_no_mutation [OF a, of sysOk ?ev "[''r'']" "init []"] a full
  show ?thesis by simp
qed

section \<open>Empty files\<close>

lemma walkFn_zero:
  "walkErr en = None \<Longrightarrow> \<not> IsDir en \<Longrightarrow> Size en = 0 \<Longrightarrow>
   walkFn en s = (RetNil, logf (FoundSkipping (path en)) s)"
  by (simp add: walkFn_def)

text \<open>
  Every path the walk hashes, and the path of every record it puts in \<open>files\<close> or
  \<open>dupFiles\<close>, is the path of an entry whose size is not zero.
\<close>

lemma walkFn_paths:
  assumes "set (hashed s) \<subseteq> A"
    and "\<forall>h r. files s h = Some r \<longrightarrow> Path r \<in> A"
    and "\<forall>r. dupFiles s r \<noteq> None \<longrightarrow> Path r \<in> A"
    and "Size en = 0 \<or> path en \<in> A"
  shows "set (hashed (snd (walkFn en s))) \<subseteq> A \<and>
         (\<forall>h r. files (snd (walkFn en s)) h = Some r \<longrightarrow> Path r \<in> A) \<and>
         (\<forall>r. dupFiles (snd (walkFn en s)) r \<noteq> None \<longrightarrow> Path r \<in> A)"
  using assms
  by (auto simp: walkFn_def Let_def files_observe dupFiles_observe
           split: option.splits if_splits)

lemma Walk_paths:
  assumes "set (hashed s) \<subseteq> A"
    and "\<forall>h r. files s h = Some r \<longrightarrow> Path r \<in> A"
    and "\<forall>r. dupFiles s r \<noteq> None \<longrightarrow> Path r \<in> A"
    and "\<forall>en\<in>set es. Size en = 0 \<or> path en \<in> A"
  shows "set (hashed (snd (Walk es s))) \<subseteq> A \<and>
         (\<forall>h r. files (snd (Walk es s)) h = Some r \<longrightarrow> Path r \<in> A) \<and>
         (\<forall>r. dupFiles (snd (Walk es s)) r \<noteq> None \<longrightarrow> Path r \<in> A)"
  using assms
proof (induction es arbitrary: s)
  case Nil
  then show ?case by simp
next
  case (Cons en es)
  obtain r s1 where w: "walkFn en s = (r, s1)" by (cases "walkFn en s")
  have e: "Size en = 0 \<or> path en \<in> A" using Cons.prems(4) by simp
  have i: "set (hashed s1) \<subseteq> A \<and>
         (\<forall>h r. files s1 h = Some r \<longrightarrow> Path r \<in> A) \<and>
         (\<forall>r. dupFiles s1 r \<noteq> None \<longrightarrow> Path r \<in> A)"
    using walkFn_paths [OF Cons.prems(1-3) e] w by simp
  have r: "\<forall>en\<in>set es. Size en = 0 \<or> path en \<in> A" using Cons.prems(4) by simp
  show ?case
  proof (cases r)
    case RetNil
    then show ?thesis
      using Cons.IH [of s1] i r w by simp
  next
    case (RetErr x)
    then show ?thesis using i w by simp
  next
    case FatalExit
    then show ?thesis using i w by simp
  qed
qed

text \<open>
  C9 (zero-length exclusion). In a walk that presents every path once, an entry of size
  zero is never opened for hashing, and no record with its path is in \<open>files\<close> or in
  \<open>dupFiles\<close> when the walk ends or stops; and when the entry is a file the walk could
  stat, the callback only logs the skip notice and the walk goes on with the next entry.
\<close>

theorem zero_length_excluded:
  assumes "en \<in> set es" and "Size en = 0" and "distinct (map path es)"
  shows "path en \<notin> set (hashed (snd (Walk es (init f)))) \<and>
         (\<forall>h r. files (snd (Walk es (init f))) h = Some r \<longrightarrow> Path r \<noteq> path en) \<and>
         (\<forall>r. dupFiles (snd (Walk es (init f))) r \<noteq> None \<longrightarrow> Path r \<noteq> path en) \<and>
         (walkErr en = None \<and> \<not> IsDir en \<longrightarrow>
            (\<forall>s ens. Walk (en # ens) s = Walk ens (logf (FoundSkipping (path en)) s)))"
proof -
  let ?A = "path ` {e \<in> set es. Size e \<noteq> 0}"
  have inj: "inj_on path (set es)" using assms(3) by (simp add: distinct_map)
  have notin: "path en \<notin> ?A"
  proof
    assume "path en \<in> ?A"
    then obtain e where e: "e \<in> set es" "Size e \<noteq> 0" "path e = path en" by auto
    then have "e = en" using inj assms(1) by (auto dest: inj_onD)
    then show False using e(2) assms(2) by simp
  qed
  have P: "set (hashed (snd (Walk es (init f)))) \<subseteq> ?A \<and>
         (\<forall>h r. files (snd (Walk es (init f))) h = Some r \<longrightarrow> Path r \<in> ?A) \<and>
         (\<forall>r. dupFiles (snd (Walk es (init f))) r \<noteq> None \<longrightarrow> Path r \<in> ?A)"
    by (rule Walk_paths) (auto simp: init_def)
  have skip: "walkErr en = None \<and> \<not> IsDir en \<longrightarrow>
            (\<forall>s ens. Walk (en # ens) s = Walk ens (logf (FoundSkipping (path en)) s))"
    using assms(2) by (simp add: walkFn_zero)
  have h: "path en \<notin> set (hashed (snd (Walk es (init f))))"
    using P notin by blast
  have c: "\<forall>h r. files (snd (Walk es (init f))) h = Some r \<longrightarrow> Path r \<noteq> path en"
    using P notin by metis
  have d: "\<forall>r. dupFiles (snd (Walk es (init f))) r \<noteq> None \<longrightarrow> Path r \<noteq> path en"
    using P notin by metis
  show ?thesis using h c d skip by (intro conjI)
qed

theorem zero_length_excluded_witness:
  "fileEntry ''r/empty.txt'' 0 3 ''e3b0'' \<in>
     set [dirEntry ''r'', fileEntry ''r/a.txt'' 4 1 ''c0'', fileEntry ''r/empty.txt'' 0 3 ''e3b0'',
          fileEntry ''r/z.txt'' 4 2 ''c0''] \<and>
   Size (fileEntry ''r/empty.txt'' 0 3 ''e3b0'') = 0 \<and>
   distinct (map path [dirEntry ''r'', fileEntry ''r/a.txt'' 4 1 ''c0'',
          fileEntry ''r/empty.txt'' 0 3 ''e3b0'', fileEntry ''r/z.txt'' 4 2 ''c0'']) \<and>
   Walk [dirEntry ''r'', fileEntry ''r/a.txt'' 4 1 ''c0'', fileEntry ''r/empty.txt'' 0 3 ''e3b0'',
         fileEntry ''r/z.txt'' 4 2 ''c0''] (init ())
   = (RetNil,
      \<lparr>files = [''c0'' \<mapsto> \<lparr>Path = ''r/a.txt'', Time = 1\<rparr>],
       dupFiles = [\<lparr>Path = ''r/z.txt'', Time = 2\<rparr> \<mapsto> True],
       fs = (), calls = [], hashed = [''r/a.txt'', ''r/z.txt''],
       logs = [Found ''r/a.txt'' ''c0'', FoundSkipping ''r/empty.txt'', Found ''r/z.txt'' ''c0'']\<rparr>) \<and>
   ''r/empty.txt'' \<notin> set (hashed (snd (Walk [dirEntry ''r'', fileEntry ''r/a.txt'' 4 1 ''c0'',
         fileEntry ''r/empty.txt'' 0 3 ''e3b0'', fileEntry ''r/z.txt'' 4 2 ''c0''] (init ()))))"
proof -
  let ?en = "fileEntry ''r/empty.txt'' 0 3 ''e3b0''"
  let ?es = "[dirEntry ''r'', fileEntry ''r/a.txt'' 4 1 ''c0'', ?en, fileEntry ''r/z.txt'' 4 2 ''c0'']"
  have a: "?en \<in> set ?es" by simp
  have b: "Size ?en = 0" by (simp add: fileEntry_def)
  have c: "distinct (map path ?es)" by (simp add: fileEntry_def dirEntry_def)
  have p: "path ?en = ''r/empty.txt''" by (simp add: fileEntry_def)
  have w: "Walk ?es (init ()) = (RetNil,
      \<lparr>files = [''c0'' \<mapsto> \<lparr>Path = ''r/a.txt'', Time = 1\<rparr>],
       dupFiles = [\<lparr>Path = ''r/z.txt'', Time = 2\<rparr> \<mapsto> True],
       fs = (), calls = [], hashed = [''r/a.txt'', ''r/z.txt''],
       logs = [Found ''r/a.txt'' ''c0'', FoundSkipping ''r/empty.txt'', Found ''r/z.txt'' ''c0'']\<rparr>)"
    by (simp add: walkFn_def init_def fileEntry_def dirEntry_def logf_def observe_def
        replaces_def Let_def)
  have n: "''r/empty.txt'' \<notin> set (hashed (snd (Walk ?es (init ()))))"
    using zero_length_excluded [OF a b c, of "()"] unfolding p by blast
  show ?thesis using a b c w n by (intro conjI)
qed

section \<open>\<^verbatim>\<open>dedup\<close> together with \<^verbatim>\<open>rdup\<close>\<close>

lemma calls_exec: "calls (snd (exec sys op s)) = calls s @ [op]"
  by (simp add: exec_def split: prod.splits)

lemma moveToDirectory_calls:
  "calls (snd (moveToDirectory sys cfg a d n s)) =
     calls s @
     (if dryrun cfg then []
      else if fst (sys (MkdirAll (Dir (target a d n))) (fs s)) \<noteq> None
      then [MkdirAll (Dir (target a d n))]
      else [MkdirAll (Dir (target a d n)), Rename a (target a d n)])"
  by (auto simp: moveToDirectory_def Let_def exec_def logf_def split: prod.splits option.splits)

lemma moveToDirectory_no_Remove:
  "Remove p \<notin> set (calls s) \<Longrightarrow> Remove p \<notin> set (calls (snd (moveToDirectory sys cfg a d n s)))"
  by (simp add: moveToDirectory_calls)

lemma copyToDirectory_calls:
  "\<exists>ops. calls (snd (copyToDirectory sys cfg a d n s)) = calls s @ ops \<and>
         set ops \<subseteq> {MkdirAll (Dir (target a d n)), Open a, Create (target a d n),
                     Copy (target a d n) a, Sync (target a d n), Close (target a d n), Close a}"
  by (auto simp: copyToDirectory_def Let_def exec_def logf_def closeIn_def closeOutIn_def
           split: prod.splits option.splits)

lemma copyToDirectory_no_Remove:
  "Remove p \<notin> set (calls s) \<Longrightarrow> Remove p \<notin> set (calls (snd (copyToDirectory sys cfg a d n s)))"
  using copyToDirectory_calls [of sys cfg a d n s] by auto

lemma copyToDirectory_mono:
  "set (calls s) \<subseteq> set (calls (snd (copyToDirectory sys cfg a d n s)))"
  using copyToDirectory_calls [of sys cfg a d n s] by auto

lemma moveToDirectory_mono:
  "set (calls s) \<subseteq> set (calls (snd (moveToDirectory sys cfg a d n s)))"
  by (simp add: moveToDirectory_calls)

lemma dedupMove_no_Remove:
  "Remove p \<notin> set (calls s) \<Longrightarrow> Remove p \<notin> set (calls (dedupMove sys cfg ds s))"
  by (induction ds arbitrary: s) (simp_all add: moveToDirectory_no_Remove)

lemma dedupCopy_no_Remove:
  "Remove p \<notin> set (calls s) \<Longrightarrow> Remove p \<notin> set (calls (dedupCopy sys cfg ds s))"
  by (induction ds arbitrary: s) (simp_all add: copyToDirectory_no_Remove)

lemma flattenLoop_no_Remove:
  "Remove p \<notin> set (calls s) \<Longrightarrow> Remove p \<notin> set (calls (flattenLoop sys cfg names rs s))"
proof (induction rs arbitrary: names s)
  case Nil
  then show ?case by simp
next
  case (Cons r rs)
  then show ?case
    by (cases "flattenName names (Base (Path r))")
       (simp add: moveToDirectory_no_Remove copyToDirectory_no_Remove)
qed

lemma flattenLoop_mono:
  "set (calls s) \<subseteq> set (calls (flattenLoop sys cfg names rs s))"
proof (induction rs arbitrary: names s)
  case Nil
  then show ?case by simp
next
  case (Cons r rs)
  obtain n names1 where f: "flattenName names (Base (Path r)) = (n, names1)"
    by (cases "flattenName names (Base (Path r))")
  let ?s1 = "snd ((if remove cfg then moveToDirectory sys cfg (Path r) (fdir cfg) n
                   else copyToDirectory sys cfg (Path r) (fdir cfg) n) s)"
  have "set (calls s) \<subseteq> set (calls ?s1)"
    by (simp add: moveToDirectory_mono copyToDirectory_mono)
  also have "\<dots> \<subseteq> set (calls (flattenLoop sys cfg names1 rs ?s1))"
    by (rule Cons.IH)
  finally show ?case using f by simp
qed

lemma flattenPhase_no_Remove:
  "Remove p \<notin> set (calls s) \<Longrightarrow> Remove p \<notin> set (calls (flattenPhase sys cfg ev s))"
  by (simp add: flattenPhase_def flattenLoop_no_Remove)

lemma flattenPhase_mono:
  "set (calls s) \<subseteq> set (calls (flattenPhase sys cfg ev s))"
  using flattenLoop_mono [of "logf (InfoFlatten (fdir cfg)) s"]
  by (simp add: flattenPhase_def)

lemma dupPhase_dedup:
  "dedup cfg \<Longrightarrow> fst (dupPhase sys cfg ev arg0 s) = None"
  by (simp add: dupPhase_def)

lemma dupPhase_dedup_no_Remove:
  "dedup cfg \<Longrightarrow> Remove p \<notin> set (calls s) \<Longrightarrow>
   Remove p \<notin> set (calls (snd (dupPhase sys cfg ev arg0 s)))"
  by (simp add: dupPhase_def dedupMove_no_Remove dedupCopy_no_Remove)

lemma RunE_dedup_no_Remove:
  assumes "dedup cfg" and "Remove p \<notin> set (calls s)"
  shows "Remove p \<notin> set (calls (snd (RunE sys cfg ev args s)))"
proof (cases "\<exists>arg0. args = [arg0]")
  case False
  then show ?thesis
    using assms(2) by (cases args) (simp_all add: RunE_def split: list.splits)
next
  case True
  then obtain arg0 where a: "args = [arg0]" by blast
  obtain r s1 where w: "Walk (entries ev) s = (r, s1)" by (cases "Walk (entries ev) s")
  have f1: "Remove p \<notin> set (calls s1)"
    using Walk_frame [of "entries ev" s] w assms(2) by simp
  obtain s2 where d: "dupPhase sys cfg ev arg0 s1 = (None, s2)"
    using dupPhase_dedup [OF assms(1), of sys ev arg0 s1]
    by (cases "dupPhase sys cfg ev arg0 s1") simp
  have f2: "Remove p \<notin> set (calls s2)"
    using dupPhase_dedup_no_Remove [OF assms(1) f1, of sys ev arg0] d by simp
  have f3: "Remove p \<notin> set (calls (flattenPhase sys cfg ev s2))"
    by (rule flattenPhase_no_Remove [OF f2])
  show ?thesis
    using a w d assms(2) f1 f2 f3 by (cases r) (simp_all add: RunE_def)
qed

lemma snd_Execute: "snd (Execute sys cfg ev args f) = snd (RunE sys cfg ev args (init f))"
  by (simp add: Execute_def split: prod.splits outcome.splits option.splits)

lemma target_same: "target p d p = Join [d, p]"
  by (simp add: target_def)

lemma dedupMove_calls:
  assumes "\<not> dryrun cfg" and "\<forall>q g. fst (sys (MkdirAll q) g) = None"
  shows "calls (dedupMove sys cfg ds s) =
     calls s @ concat (map (\<lambda>r. [MkdirAll (Dir (Join [ddir cfg, Path r])),
                                  Rename (Path r) (Join [ddir cfg, Path r])]) ds)"
  using assms
  by (induction ds arbitrary: s) (simp_all add: moveToDirectory_calls target_same)

text \<open>
  C10 (\<^verbatim>\<open>dedup\<close> and \<^verbatim>\<open>rdup\<close> together). With both flags set, no run ever calls
  \<^verbatim>\<open>os.Remove\<close>, whatever the operating system answers. In a run that is not a dry
  run, whose checks and walk succeed and in which creating directories succeeds, the
  calls of the duplicate phase are, for each key of \<open>dupFiles\<close> in the order of the
  \<^verbatim>\<open>range\<close>, \<^verbatim>\<open>MkdirAll\<close> of the parent of \<^verbatim>\<open>Join(ddir, file.Path)\<close> and
  \<^verbatim>\<open>Rename(file.Path, Join(ddir, file.Path))\<close>, and nothing else; so every record of
  \<open>dupFiles\<close> is renamed to its walked path under the dump directory.
\<close>

theorem dedup_rdup_moves_never_removes:
  assumes "dedup cfg" and "rdup cfg"
  shows "Remove p \<notin> set (calls (snd (Execute sys cfg ev args f))) \<and>
    (statInput ev \<noteq> StatNotExist \<and> (\<not> flatten cfg \<or> statFdir ev = StatNotExist) \<and>
     Walk (entries ev) (init f) = (RetNil, s1) \<and> range_order (dupFiles s1) (dupOrder ev) \<and>
     \<not> dryrun cfg \<and> (\<forall>q g. fst (sys (MkdirAll q) g) = None) \<longrightarrow>
       fst (Execute sys cfg ev [arg0] f) = 0 \<and>
       calls (snd (dupPhase sys cfg ev arg0 s1)) =
         concat (map (\<lambda>r. [MkdirAll (Dir (Join [ddir cfg, Path r])),
                            Rename (Path r) (Join [ddir cfg, Path r])]) (dupOrder ev)) \<and>
       (\<forall>r. dupFiles s1 r \<noteq> None \<longrightarrow>
          Rename (Path r) (Join [ddir cfg, Path r])
            \<in> set (calls (snd (Execute sys cfg ev [arg0] f)))))"
proof (intro conjI impI)
  show "Remove p \<notin> set (calls (snd (Execute sys cfg ev args f)))"
    unfolding snd_Execute
    by (rule RunE_dedup_no_Remove [OF assms(1)]) (simp add: init_def)
next
  assume h: "statInput ev \<noteq> StatNotExist \<and> (\<not> flatten cfg \<or> statFdir ev = StatNotExist) \<and>
     Walk (entries ev) (init f) = (RetNil, s1) \<and> range_order (dupFiles s1) (dupOrder ev) \<and>
     \<not> dryrun cfg \<and> (\<forall>q g. fst (sys (MkdirAll q) g) = None)"
  have c1: "calls s1 = []"
    using Walk_frame [of "entries ev" "init f"] h by (simp add: init_def)
  let ?trace = "concat (map (\<lambda>r. [MkdirAll (Dir (Join [ddir cfg, Path r])),
                            Rename (Path r) (Join [ddir cfg, Path r])]) (dupOrder ev))"
  have d: "dupPhase sys cfg ev arg0 s1 =
      (None, dedupMove sys cfg (dupOrder ev) (logf (InfoMoveTo (ddir cfg)) s1))"
    using assms by (simp add: dupPhase_def)
  have t: "calls (snd (dupPhase sys cfg ev arg0 s1)) = ?trace"
    using h c1 by (simp add: d dedupMove_calls)
  have R: "RunE sys cfg ev [arg0] (init f) =
      (Return None, flattenPhase sys cfg ev (snd (dupPhase sys cfg ev arg0 s1)))"
    using h d by (auto simp: RunE_def)
  show "fst (Execute sys cfg ev [arg0] f) = 0"
    by (simp add: Execute_def R)
  show "calls (snd (dupPhase sys cfg ev arg0 s1)) = ?trace" by (rule t)
  show "\<forall>r. dupFiles s1 r \<noteq> None \<longrightarrow>
          Rename (Path r) (Join [ddir cfg, Path r])
            \<in> set (calls (snd (Execute sys cfg ev [arg0] f)))"
  proof (intro allI impI)
    fix r
    assume "dupFiles s1 r \<noteq> None"
    then have "r \<in> set (dupOrder ev)"
      using h by (auto simp: range_order_def)
    then have "Rename (Path r) (Join [ddir cfg, Path r]) \<in> set ?trace" by auto
    then have "Rename (Path r) (Join [ddir cfg, Path r])
        \<in> set (calls (snd (dupPhase sys cfg ev arg0 s1)))" by (simp only: t)
    then show "Rename (Path r) (Join [ddir cfg, Path r])
            \<in> set (calls (snd (Execute sys cfg ev [arg0] f)))"
      using flattenPhase_mono [of "snd (dupPhase sys cfg ev arg0 s1)" sys cfg ev]
      by (auto simp: snd_Execute R)
  qed
qed


theorem dedup_rdup_moves_never_removes_witness:
  "dedup (flags\<lparr>dedup := True, rdup := True\<rparr>) \<and> rdup (flags\<lparr>dedup := True, rdup := True\<rparr>) \<and>
   Walk [dirEntry ''r'', fileEntry ''r/f.txt'' 4 1 ''c0'', fileEntry ''r/g.txt'' 4 1 ''c0'']
        (init [])
     = (RetNil,
        \<lparr>files = [''c0'' \<mapsto> \<lparr>Path = ''r/f.txt'', Time = 1\<rparr>],
         dupFiles = [\<lparr>Path = ''r/g.txt'', Time = 1\<rparr> \<mapsto> True],
         fs = [], calls = [], hashed = [''r/f.txt'', ''r/g.txt''],
         logs = [Found ''r/f.txt'' ''c0'', Found ''r/g.txt'' ''c0'']\<rparr>) \<and>
   range_order [\<lparr>Path = ''r/g.txt'', Time = 1\<rparr> \<mapsto> True] [\<lparr>Path = ''r/g.txt'', Time = 1\<rparr>] \<and>
   fst (Execute sysOk (flags\<lparr>dedup := True, rdup := True\<rparr>)
     \<lparr>statInput = StatOk, statFdir = StatNotExist,
      entries = [dirEntry ''r'', fileEntry ''r/f.txt'' 4 1 ''c0'', fileEntry ''r/g.txt'' 4 1 ''c0''],
      dupOrder = [\<lparr>Path = ''r/g.txt'', Time = 1\<rparr>], filesOrder = [''c0'']\<rparr> [''r''] []) = 0 \<and>
   calls (snd (Execute sysOk (flags\<lparr>dedup := True, rdup := True\<rparr>)
     \<lparr>statInput = StatOk, statFdir = StatNotExist,
      entries = [dirEntry ''r'', fileEntry ''r/f.txt'' 4 1 ''c0'', fileEntry ''r/g.txt'' 4 1 ''c0''],
      dupOrder = [\<lparr>Path = ''r/g.txt'', Time = 1\<rparr>], filesOrder = [''c0'']\<rparr> [''r''] []))
     = [MkdirAll ''dupdump/r'', Rename ''r/g.txt'' ''dupdump/r/g.txt''] \<and>
   Remove ''r/g.txt'' \<notin> set (calls (snd (Execute sysOk (flags\<lparr>dedup := True, rdup := True\<rparr>)
     \<lparr>statInput = StatOk, statFdir = StatNotExist,
      entries = [dirEntry ''r'', fileEntry ''r/f.txt'' 4 1 ''c0'', fileEntry ''r/g.txt'' 4 1 ''c0''],
      dupOrder = [\<lparr>Path = ''r/g.txt'', Time = 1\<rparr>], filesOrder = [''c0'']\<rparr> [''r''] [])))"
proof -
  let ?cfg = "flags\<lparr>dedup := True, rdup := True\<rparr>"
  let ?es = "[dirEntry ''r'', fileEntry ''r/f.txt'' 4 1 ''c0'', fileEntry ''r/g.txt'' 4 1 ''c0'']"
  let ?g = "\<lparr>Path = ''r/g.txt'', Time = 1\<rparr>"
  let ?ev = "\<lparr>statInput = StatOk, statFdir = StatNotExist, entries = ?es,
      dupOrder = [?g], filesOrder = [''c0'']\<rparr>"
  let ?s1 = "\<lparr>files = [''c0'' \<mapsto> \<lparr>Path = ''r/f.txt'', Time = 1\<rparr>],
         dupFiles = [?g \<mapsto> True],
         fs = [], calls = [], hashed = [''r/f.txt'', ''r/g.txt''],
         logs = [Found ''r/f.txt'' ''c0'', Found ''r/g.txt'' ''c0'']\<rparr>"
  have a: "dedup ?cfg" and b: "rdup ?cfg" by (simp_all add: flags_def)
  have w: "Walk ?es (init []) = (RetNil, ?s1)"
    by (simp add: walkFn_def init_def fileEntry_def dirEntry_def logf_def observe_def
        replaces_def Let_def)
  have ro: "range_order [?g \<mapsto> True] [?g]"
    by (simp add: range_order_def)
  have h: "statInput ?ev \<noteq> StatNotExist \<and> (\<not> flatten ?cfg \<or> statFdir ?ev = StatNotExist) \<and>
     Walk (entries ?ev) (init []) = (RetNil, ?s1) \<and> range_order (dupFiles ?s1) (dupOrder ?ev) \<and>
     \<not> dryrun ?cfg \<and> (\<forall>q g. fst (sysOk (MkdirAll q) g) = None)"
    using w ro by (simp add: flags_def sysOk_def)
  note T = dedup_rdup_moves_never_removes [OF a b, of "''r/g.txt''" sysOk ?ev "[''r'']" "[]" ?s1 "''r''"]
  have e0: "fst (Execute sysOk ?cfg ?ev [''r''] []) = 0"
    using T h by blast
  have nr: "Remove ''r/g.txt'' \<notin> set (calls (snd (Execute sysOk ?cfg ?ev [''r''] [])))"
    using T by blast
  have c: "calls (snd (Execute sysOk ?cfg ?ev [''r''] []))
     = [MkdirAll ''dupdump/r'', Rename ''r/g.txt'' ''dupdump/r/g.txt'']"
    by (simp add: Execute_def RunE_def dupPhase_def flattenPhase_def flags_def walkFn_def
      init_def fileEntry_def dirEntry_def logf_def observe_def replaces_def Let_def
      moveToDirectory_def target_def Join_def Dir_def Clean_def clean_step_def exec_def
      sysOk_def)
  show ?thesis using a b w ro e0 c nr by (intro conjI)
qed

end
